theory Spec2Isabelle
  imports Complex_Main
begin

section \<open>JavaScript values and strings\<close>

text \<open>
  Strings are modelled as \<^typ>\<open>string\<close>; one \<^typ>\<open>char\<close> stands for one code unit of
  the source's strings (code units below 256). Values of static type \<open>unknown\<close> are
  modelled by \<open>jsval\<close>: the JSON values together with \<open>undefined\<close>. Numbers keep what
  the code observes of them, their truthiness.
\<close>

datatype jsnum = NaN | PosInfinity | NegInfinity | Finite real

datatype jsval =
    JUndefined
  | JNull
  | JBool bool
  | JNum jsnum
  | JStr string
  | JArr "jsval list"
  | JObj "(string \<times> jsval) list"

text \<open>An exception thrown by the code, with its message.\<close>

datatype exn = TypeError string | URIError string | Error string

fun message_of :: "exn \<Rightarrow> string" where
  "message_of (TypeError m) = m"
| "message_of (URIError m) = m"
| "message_of (Error m) = m"

definition NL :: char where
  "NL = CHR 0x0A"

definition BQ :: char where
  "BQ = CHR 0x60"

text \<open>The class \<open>\s\<close> of regular expressions, which is also what \<open>trim\<close> strips.\<close>

definition isWhiteSpace :: "char \<Rightarrow> bool" where
  "isWhiteSpace c \<longleftrightarrow>
     c = CHR 0x09 \<or> c = CHR 0x0A \<or> c = CHR 0x0B \<or> c = CHR 0x0C \<or> c = CHR 0x0D \<or>
     c = CHR 0x20 \<or> c = CHR 0xA0"

definition trim :: "string \<Rightarrow> string" where
  "trim s = rev (dropWhile isWhiteSpace (rev (dropWhile isWhiteSpace s)))"

definition startsWith :: "string \<Rightarrow> string \<Rightarrow> bool" where
  "startsWith s p \<longleftrightarrow> take (length p) s = p"

definition endsWith :: "string \<Rightarrow> string \<Rightarrow> bool" where
  "endsWith s p \<longleftrightarrow> length p \<le> length s \<and> drop (length s - length p) s = p"

text \<open>\<open>s.slice(0, -n)\<close> and \<open>s.slice(-n)\<close>.\<close>

definition sliceDropLast :: "nat \<Rightarrow> string \<Rightarrow> string" where
  "sliceDropLast n s = take (length s - n) s"

definition sliceLast :: "nat \<Rightarrow> string \<Rightarrow> string" where
  "sliceLast n s = drop (length s - n) s"

definition lowerChar :: "char \<Rightarrow> char" where
  "lowerChar c =
     (let n = of_char c :: nat in
      if (65 \<le> n \<and> n \<le> 90) \<or> (192 \<le> n \<and> n \<le> 222 \<and> n \<noteq> 215) then char_of (n + 32) else c)"

definition upperChar :: "char \<Rightarrow> char" where
  "upperChar c =
     (let n = of_char c :: nat in
      if (97 \<le> n \<and> n \<le> 122) \<or> (224 \<le> n \<and> n \<le> 254 \<and> n \<noteq> 247) then char_of (n - 32) else c)"

definition toLowerCase :: "string \<Rightarrow> string" where
  "toLowerCase s = map lowerChar s"

text \<open>
  The sharp s has the upper case \<open>SS\<close>. The upper case of the micro sign and of the
  y with diaeresis lies above code unit 255; they stay as they are here.
\<close>

definition upperChars :: "char \<Rightarrow> string" where
  "upperChars c = (if of_char c = (223 :: nat) then ''SS'' else [upperChar c])"

definition toUpperCase :: "string \<Rightarrow> string" where
  "toUpperCase s = concat (map upperChars s)"

text \<open>\<open>s.replace(/\s+/g, " ")\<close>: every maximal run of white space becomes one space.\<close>

function collapseWhiteSpace :: "string \<Rightarrow> string" where
  "collapseWhiteSpace [] = []"
| "collapseWhiteSpace (c # cs) =
     (if isWhiteSpace c then CHR '' '' # collapseWhiteSpace (dropWhile isWhiteSpace cs)
      else c # collapseWhiteSpace cs)"
  by pat_completeness auto
termination
  by (relation "measure length") (auto simp: le_imp_less_Suc length_dropWhile_le)

text \<open>\<open>xs.join(sep)\<close>.\<close>

fun join :: "string \<Rightarrow> string list \<Rightarrow> string" where
  "join sep [] = []"
| "join sep [x] = x"
| "join sep (x # y # ys) = x @ sep @ join sep (y # ys)"

text \<open>A number of lengths and indices printed in decimal, as a template literal does.\<close>

fun showNat :: "nat \<Rightarrow> string" where
  "showNat n =
     (if n < 10 then [char_of (48 + n)] else showNat (n div 10) @ [char_of (48 + n mod 10)])"

declare showNat.simps [simp del]

text \<open>Truthiness, \<open>typeof v === "object" && v !== null\<close>, and property access.\<close>

fun truthy :: "jsval \<Rightarrow> bool" where
  "truthy JUndefined = False"
| "truthy JNull = False"
| "truthy (JBool b) = b"
| "truthy (JNum n) = (case n of Finite r \<Rightarrow> r \<noteq> 0 | NaN \<Rightarrow> False | _ \<Rightarrow> True)"
| "truthy (JStr s) = (s \<noteq> [])"
| "truthy (JArr _) = True"
| "truthy (JObj _) = True"

fun isObject :: "jsval \<Rightarrow> bool" where
  "isObject (JArr _) = True"
| "isObject (JObj _) = True"
| "isObject _ = False"

text \<open>
  \<open>v.k\<close> for the property names the code reads. None of them is a property of an array,
  a string, a number or a boolean, where the access gives \<open>undefined\<close>; the code never
  reads a property of \<open>null\<close> or \<open>undefined\<close>.
\<close>

fun getProp :: "jsval \<Rightarrow> string \<Rightarrow> jsval" where
  "getProp (JObj kvs) k = (case map_of kvs k of Some v \<Rightarrow> v | None \<Rightarrow> JUndefined)"
| "getProp _ k = JUndefined"

text \<open>\<open>a || b\<close> and \<open>a ?? b\<close> on values.\<close>

definition orElse :: "jsval \<Rightarrow> jsval \<Rightarrow> jsval" where
  "orElse a b = (if truthy a then a else b)"

definition nullish :: "jsval \<Rightarrow> jsval \<Rightarrow> jsval" where
  "nullish a b = (if a = JUndefined \<or> a = JNull then b else a)"

text \<open>
  \<open>JSON.stringify(v, null, 2)\<close>: \<open>undefined\<close> for \<open>undefined\<close>, else the text the engine
  renders, which is a parameter.
\<close>

definition JSON_stringify :: "(jsval \<Rightarrow> string) \<Rightarrow> jsval \<Rightarrow> string option" where
  "JSON_stringify render v = (if v = JUndefined then None else Some (render v))"

section \<open>Types of the pipeline (lib/types.ts)\<close>

datatype SourceType = docs | github | stackoverflow | blog

record DiscoveredSource =
  ds_id :: string
  ds_type :: SourceType
  ds_title :: string
  ds_url :: string
  ds_reason :: string
  ds_query :: string

record ApiReference =
  api_name :: string
  api_description :: string
  api_signature :: "string option"

record PracticalExample =
  ex_title :: string
  ex_code :: string
  ex_explanation :: "string option"
  ex_language :: "string option"

record CommonIssue =
  ci_issue :: string
  ci_fix :: string

record ResourceLink =
  rl_label :: string
  rl_url :: string
  rl_note :: "string option"

record StructuredExtraction =
  overview :: string
  coreConcepts :: "string list"
  apis :: "ApiReference list"
  examples :: "PracticalExample list"
  commonIssues :: "CommonIssue list"
  bestPractices :: "string list"
  resources :: "ResourceLink list"
  rawText :: string

section \<open>Extraction normalizer (lib/guide-builder.ts)\<close>

definition stripCodeFence :: "string \<Rightarrow> string" where
  "stripCodeFence input =
     (let text = trim input;
          text = (if startsWith text ([BQ, BQ, BQ] @ ''json'') then drop 7 text
                  else if startsWith text [BQ, BQ, BQ] then drop 3 text
                  else text);
          text = (if endsWith text [BQ, BQ, BQ] then sliceDropLast 3 text else text)
      in trim text)"

fun firstString :: "jsval list \<Rightarrow> string" where
  "firstString [] = []"
| "firstString (JStr s # vs) = (if trim s \<noteq> [] then trim s else firstString vs)"
| "firstString (_ # vs) = firstString vs"

text \<open>\<open>JSON.parse\<close> is a parameter: \<open>None\<close> when it throws.\<close>

definition parseMaybeObject :: "(string \<Rightarrow> jsval option) \<Rightarrow> jsval \<Rightarrow> jsval option" where
  "parseMaybeObject JSON_parse input =
     (if isObject input then Some input
      else case input of
        JStr s \<Rightarrow>
          (case JSON_parse (stripCodeFence s) of
             Some parsed \<Rightarrow> if isObject parsed then Some parsed else None
           | None \<Rightarrow> None)
      | _ \<Rightarrow> None)"

text \<open>
  The list converters run one loop over the entries of an array; each entry contributes
  one element or none.
\<close>

definition stringEntry :: "jsval \<Rightarrow> string option" where
  "stringEntry entry =
     (case entry of
        JStr s \<Rightarrow> if trim s \<noteq> [] then Some (trim s) else None
      | _ \<Rightarrow>
        if isObject entry then
          (let candidate = firstString [getProp entry ''title'', getProp entry ''name'',
                 getProp entry ''value'', getProp entry ''text'', getProp entry ''description'']
           in if candidate \<noteq> [] then Some candidate else None)
        else None)"

fun toStringList :: "jsval \<Rightarrow> string list" where
  "toStringList (JArr entries) = List.map_filter stringEntry entries"
| "toStringList _ = []"

definition apiEntry :: "jsval \<Rightarrow> ApiReference option" where
  "apiEntry entry =
     (case entry of
        JStr s \<Rightarrow>
          if trim s \<noteq> [] then
            Some \<lparr>api_name = trim s,
                  api_description = ''Referenced API from source content.'',
                  api_signature = None\<rparr>
          else None
      | _ \<Rightarrow>
        if isObject entry then
          (let name = firstString [getProp entry ''name'', getProp entry ''method'',
                 getProp entry ''api'', getProp entry ''function''];
               description = firstString [getProp entry ''description'',
                 getProp entry ''explanation'', getProp entry ''purpose'', getProp entry ''detail'']
           in if name \<noteq> [] then
                Some \<lparr>api_name = name,
                      api_description =
                        (if description \<noteq> [] then description
                         else ''No description provided in source.''),
                      api_signature = Some (firstString [getProp entry ''signature'',
                        getProp entry ''syntax'', getProp entry ''example''])\<rparr>
              else None)
        else None)"

fun toApiList :: "jsval \<Rightarrow> ApiReference list" where
  "toApiList (JArr entries) = List.map_filter apiEntry entries"
| "toApiList _ = []"

definition exampleEntry :: "jsval \<Rightarrow> PracticalExample option" where
  "exampleEntry entry =
     (case entry of
        JStr s \<Rightarrow>
          if trim s \<noteq> [] then
            Some \<lparr>ex_title = ''Example'', ex_code = trim s,
                  ex_explanation = None, ex_language = None\<rparr>
          else None
      | _ \<Rightarrow>
        if isObject entry then
          (let code = firstString [getProp entry ''code'', getProp entry ''snippet'',
                 getProp entry ''example'', getProp entry ''content'']
           in if code = [] then None
              else
                Some \<lparr>ex_title =
                        (let t = firstString [getProp entry ''title'', getProp entry ''name'']
                         in if t \<noteq> [] then t else ''Example''),
                      ex_code = code,
                      ex_explanation = Some (firstString [getProp entry ''explanation'',
                        getProp entry ''why'', getProp entry ''context'', getProp entry ''description'']),
                      ex_language = Some (firstString [getProp entry ''language'',
                        getProp entry ''lang''])\<rparr>)
        else None)"

fun toExampleList :: "jsval \<Rightarrow> PracticalExample list" where
  "toExampleList (JArr entries) = List.map_filter exampleEntry entries"
| "toExampleList _ = []"

definition issueEntry :: "jsval \<Rightarrow> CommonIssue option" where
  "issueEntry entry =
     (case entry of
        JStr s \<Rightarrow>
          if trim s \<noteq> [] then
            Some \<lparr>ci_issue = trim s,
                  ci_fix = ''Validate context and use the accepted solution from source discussions.''\<rparr>
          else None
      | _ \<Rightarrow>
        if isObject entry then
          (let issue = firstString [getProp entry ''issue'', getProp entry ''problem'',
                 getProp entry ''title'', getProp entry ''error'', getProp entry ''mistake'']
           in if issue = [] then None
              else
                Some \<lparr>ci_issue = issue,
                      ci_fix =
                        (let f = firstString [getProp entry ''fix'', getProp entry ''solution'',
                               getProp entry ''resolution'', getProp entry ''answer'']
                         in if f \<noteq> [] then f
                            else ''Review the thread for the accepted fix and adjust implementation details.'')\<rparr>)
        else None)"

fun toIssueList :: "jsval \<Rightarrow> CommonIssue list" where
  "toIssueList (JArr entries) = List.map_filter issueEntry entries"
| "toIssueList _ = []"

definition resourceEntry :: "jsval \<Rightarrow> ResourceLink option" where
  "resourceEntry entry =
     (case entry of
        JStr s \<Rightarrow>
          if startsWith s ''http'' then Some \<lparr>rl_label = s, rl_url = s, rl_note = None\<rparr>
          else None
      | _ \<Rightarrow>
        if isObject entry then
          (let url = firstString [getProp entry ''url'', getProp entry ''link'', getProp entry ''href'']
           in if \<not> startsWith url ''http'' then None
              else
                Some \<lparr>rl_label =
                        (let l = firstString [getProp entry ''label'', getProp entry ''title'',
                               getProp entry ''name'']
                         in if l \<noteq> [] then l else url),
                      rl_url = url,
                      rl_note = Some (firstString [getProp entry ''note'', getProp entry ''reason'',
                        getProp entry ''description''])\<rparr>)
        else None)"

fun toResourceList :: "jsval \<Rightarrow> ResourceLink list" where
  "toResourceList (JArr entries) = List.map_filter resourceEntry entries"
| "toResourceList _ = []"

definition deriveOverview :: "string \<Rightarrow> string" where
  "deriveOverview rawText' =
     (let text = trim (collapseWhiteSpace rawText')
      in if text = [] then ''No high-level overview could be extracted from this source.''
         else take 360 text)"

text \<open>
  The loop shared by \<open>uniqueByLowerCase\<close> and \<open>uniqueResources\<close>, which differ in the key
  only: \<open>seen\<close> is the set of keys, \<open>out\<close> the result so far. The length test stands after
  the push, as in the source, and ends the loop.
\<close>

fun uniqueLoop :: "('a \<Rightarrow> string) \<Rightarrow> nat \<Rightarrow> 'a list \<Rightarrow> string list \<Rightarrow> 'a list \<Rightarrow> 'a list" where
  "uniqueLoop key max' [] seen out = out"
| "uniqueLoop key max' (v # vs) seen out =
     (let k = key v;
          seen' = (if k \<notin> set seen then k # seen else seen);
          out' = (if k \<notin> set seen then out @ [v] else out)
      in if length out' \<ge> max' then out' else uniqueLoop key max' vs seen' out')"

definition uniqueByLowerCase :: "string list \<Rightarrow> nat \<Rightarrow> string list" where
  "uniqueByLowerCase values max' = uniqueLoop toLowerCase max' values [] []"

definition uniqueResources :: "ResourceLink list \<Rightarrow> nat \<Rightarrow> ResourceLink list" where
  "uniqueResources values max' = uniqueLoop (\<lambda>v. toLowerCase (rl_url v)) max' values [] []"

definition extractRawText :: "jsval \<Rightarrow> jsval \<Rightarrow> string" where
  "extractRawText obj fallback =
     firstString [getProp obj ''rawText'', getProp obj ''content'', getProp obj ''body'',
       getProp obj ''markdown'', getProp obj ''notes'',
       (case fallback of JStr s \<Rightarrow> JStr s | _ \<Rightarrow> JStr [])]"

definition sourceLink :: "DiscoveredSource \<Rightarrow> ResourceLink" where
  "sourceLink source =
     \<lparr>rl_label = ds_title source, rl_url = ds_url source, rl_note = Some (ds_reason source)\<rparr>"

text \<open>
  \<open>normalizeExtraction\<close>. On the text path \<open>text\<close> is \<open>undefined\<close> when \<open>JSON.stringify\<close>
  gives \<open>undefined\<close>, and \<open>deriveOverview\<close> then throws on \<open>rawText.replace\<close>.
\<close>

definition normalizeExtraction ::
  "(string \<Rightarrow> jsval option) \<Rightarrow> (jsval \<Rightarrow> string) \<Rightarrow> jsval \<Rightarrow> DiscoveredSource
     \<Rightarrow> exn + StructuredExtraction" where
  "normalizeExtraction JSON_parse render raw source =
     (case parseMaybeObject JSON_parse raw of
        None \<Rightarrow>
          (case (case raw of JStr s \<Rightarrow> Some s | _ \<Rightarrow> JSON_stringify render raw) of
             None \<Rightarrow> Inl (TypeError ''Cannot read properties of undefined (reading 'replace')'')
           | Some text \<Rightarrow>
               Inr \<lparr>overview = deriveOverview text,
                    coreConcepts = [],
                    apis = [],
                    examples = [],
                    commonIssues = [],
                    bestPractices = [],
                    resources = [sourceLink source],
                    rawText = text\<rparr>)
      | Some parsed \<Rightarrow>
          (let rawText' = extractRawText parsed raw;
               overview' = firstString [getProp parsed ''overview'', getProp parsed ''summary'',
                 getProp parsed ''intro'']
           in Inr \<lparr>overview = (if overview' \<noteq> [] then overview' else deriveOverview rawText'),
                   coreConcepts = uniqueByLowerCase
                     (toStringList (getProp parsed ''coreConcepts'') @
                      toStringList (getProp parsed ''keyPoints'')) 20,
                   apis = toApiList (orElse (orElse (getProp parsed ''apis'')
                     (getProp parsed ''apiMethods'')) (getProp parsed ''methods'')),
                   examples = toExampleList (orElse (getProp parsed ''examples'')
                     (getProp parsed ''codeExamples'')),
                   commonIssues = toIssueList (orElse (orElse (orElse (getProp parsed ''commonIssues'')
                     (getProp parsed ''issues'')) (getProp parsed ''gotchas''))
                     (getProp parsed ''commonMistakes'')),
                   bestPractices = uniqueByLowerCase
                     (toStringList (getProp parsed ''bestPractices'') @
                      toStringList (getProp parsed ''tips'')) 20,
                   resources = uniqueResources
                     (toResourceList (orElse (getProp parsed ''resources'') (getProp parsed ''links'')) @
                      [sourceLink source]) 20,
                   rawText = rawText'\<rparr>))"

text \<open>
  \<open>text.split(/\s+/)\<close> and \<open>text.split(/[\s/-]+/)\<close>: the pieces between the maximal runs
  of separator characters; a run at the start or at the end leaves an empty piece there,
  and the empty string gives one empty piece.
\<close>

function splitRuns :: "(char \<Rightarrow> bool) \<Rightarrow> string \<Rightarrow> string list" where
  "splitRuns sep s =
     (let piece = takeWhile (\<lambda>c. \<not> sep c) s;
          rest = dropWhile (\<lambda>c. \<not> sep c) s
      in if rest = [] then [piece] else piece # splitRuns sep (dropWhile sep rest))"
  by pat_completeness auto
termination
proof (relation "measure (\<lambda>(sep, s). length s)")
  fix sep :: "char \<Rightarrow> bool" and s piece rest
  assume r: "rest = dropWhile (\<lambda>c. \<not> sep c) s" and ne: "rest \<noteq> []"
  from ne obtain c cs where rc: "rest = c # cs" by (cases rest) auto
  with r have "sep c" by (auto simp: dropWhile_eq_Cons_conv dest: sym)
  then have "length (dropWhile sep rest) \<le> length cs"
    by (simp add: rc length_dropWhile_le)
  moreover have "length rest \<le> length s"
    by (simp add: r length_dropWhile_le)
  ultimately show "((sep, dropWhile sep rest), (sep, s)) \<in> measure (\<lambda>(sep, s). length s)"
    by (simp add: rc)
qed simp

declare splitRuns.simps [simp del]

definition countWords :: "string \<Rightarrow> nat" where
  "countWords text = length (filter (\<lambda>w. w \<noteq> []) (splitRuns isWhiteSpace (trim text)))"

section \<open>Guide synthesizer (lib/guide-builder.ts)\<close>

record ScrapeSuccess =
  ss_source :: DiscoveredSource
  ss_extracted :: StructuredExtraction
  ss_wordCount :: nat

record ScrapeFailure =
  sf_source :: DiscoveredSource
  sf_error :: jsval

datatype ScrapeResult = Succeeded ScrapeSuccess | Failed ScrapeFailure

record GuideBuildResult =
  markdown :: string
  sections :: "string list"

text \<open>A string is truthy when it is present and not empty.\<close>

fun present :: "string option \<Rightarrow> bool" where
  "present None = False"
| "present (Some s) = (s \<noteq> [])"

definition renderOverview :: "ScrapeSuccess list \<Rightarrow> string" where
  "renderOverview results =
     (let overviewLines = uniqueByLowerCase
            (filter (\<lambda>s. s \<noteq> []) (map (\<lambda>item. overview (ss_extracted item)) results)) 4
      in if length overviewLines = 0 then
           ''No reliable overview was extracted from the selected sources.''
         else join [NL] (map (\<lambda>line. ''- '' @ line) overviewLines))"

definition apiRow :: "ApiReference \<times> string \<Rightarrow> string" where
  "apiRow a =
     (case a of (api, source) \<Rightarrow>
        ''| '' @ api_name api @ '' | '' @ api_description api @ '' _(from '' @ source @ '')_ | '' @
        (if present (api_signature api) then [BQ] @ the (api_signature api) @ [BQ] else ''n/a'') @
        '' |'' @ [NL])"

definition renderCoreConcepts :: "ScrapeSuccess list \<Rightarrow> string" where
  "renderCoreConcepts results =
     (let concepts = uniqueByLowerCase
            (concat (map (\<lambda>item. coreConcepts (ss_extracted item)) results)) 14;
          bestPractices' = uniqueByLowerCase
            (concat (map (\<lambda>item. bestPractices (ss_extracted item)) results)) 10;
          apis' = concat (map (\<lambda>item.
            map (\<lambda>api. (api, ds_title (ss_source item))) (apis (ss_extracted item))) results);
          section1 =
            (if length concepts > 0 then join [NL] (map (\<lambda>concept. ''- '' @ concept) concepts)
             else ''- No explicit concept list found; review examples and resources for details.'');
          section2 =
            (if length apis' > 0 then
               section1 @ [NL, NL] @ ''### API Surface'' @ [NL, NL] @
               ''| API | Description | Signature |'' @ [NL] @
               ''| --- | --- | --- |'' @ [NL] @
               concat (map apiRow (take 14 apis'))
             else section1);
          section3 =
            (if length bestPractices' > 0 then
               section2 @ [NL, NL] @ ''### Best Practices'' @ [NL, NL] @
               join [NL] (map (\<lambda>tip. ''- '' @ tip) bestPractices')
             else section2)
      in section3)"

definition exampleBlock :: "nat \<Rightarrow> PracticalExample \<times> string \<Rightarrow> string" where
  "exampleBlock index e =
     (case e of (example, sourceTitle) \<Rightarrow>
        (let language = (if present (ex_language example) then the (ex_language example)
                         else ''text'');
             explanation =
               (if present (ex_explanation example) then [NL] @ the (ex_explanation example)
                else [NL] @ ''Source included code without additional explanation.'')
         in ''### Example '' @ showNat (index + 1) @ '': '' @ ex_title example @ [NL, NL] @
            [BQ, BQ, BQ] @ language @ [NL] @ ex_code example @ [NL] @ [BQ, BQ, BQ] @ [NL] @
            explanation @ [NL, NL] @ ''_Source: '' @ sourceTitle @ ''_''))"

definition renderExamples :: "ScrapeSuccess list \<Rightarrow> string" where
  "renderExamples results =
     (let examples' = concat (map (\<lambda>item.
            map (\<lambda>example. (example, ds_title (ss_source item))) (examples (ss_extracted item)))
            results)
      in if length examples' = 0 then
           ''No standalone code examples were extracted. Use the resources section to inspect original examples.''
         else join [NL, NL]
           (map (\<lambda>(index, e). exampleBlock index e) (enumerate 0 (take 8 examples'))))"

definition renderGotchas :: "ScrapeSuccess list \<Rightarrow> string" where
  "renderGotchas results =
     (let issues = concat (map (\<lambda>item. commonIssues (ss_extracted item)) results)
      in if length issues = 0 then
           ''- No explicit gotchas were extracted; check linked GitHub and Stack Overflow sources for troubleshooting context.''
         else join [NL]
           (map (\<lambda>item. ''- **'' @ ci_issue item @ ''**'' @ [NL] @ ''  - Fix: '' @ ci_fix item)
              (take 12 issues)))"

definition renderResources :: "ScrapeSuccess list \<Rightarrow> string" where
  "renderResources results =
     (let resources' = uniqueResources
            (concat (map (\<lambda>item. resources (ss_extracted item)) results)) 40
      in join [NL]
           (map (\<lambda>resource.
              (let note = (if present (rl_note resource) then '' - '' @ the (rl_note resource)
                           else [])
               in ''- ['' @ rl_label resource @ '']('' @ rl_url resource @ '')'' @ note))
              resources'))"

text \<open>
  \<open>buildGuideMarkdown\<close>. The clock and the locale are parameters: \<open>now\<close> is what
  \<open>new Date().toISOString()\<close> gives, \<open>formatDate\<close> the rendering of \<open>toLocaleString\<close>.
\<close>

definition guideHeader :: "(string \<Rightarrow> string) \<Rightarrow> string \<Rightarrow> string \<Rightarrow> ScrapeSuccess list \<Rightarrow> string" where
  "guideHeader formatDate now topic results =
     ''# '' @ topic @ '' Skill Guide'' @ [NL, NL] @
     ''Generated: '' @ formatDate now @ [NL] @
     ''Sources scraped successfully: '' @ showNat (length results) @ [NL]"

definition buildGuideMarkdown ::
  "(string \<Rightarrow> string) \<Rightarrow> string \<Rightarrow> string \<Rightarrow> ScrapeSuccess list \<Rightarrow> GuideBuildResult" where
  "buildGuideMarkdown formatDate now topic results =
     (let generatedAt = now;
          header = guideHeader formatDate generatedAt topic results;
          sections' =
            [header @ [NL],
             ''## Overview'' @ [NL, NL] @ renderOverview results @ [NL],
             ''## Core Concepts'' @ [NL, NL] @ renderCoreConcepts results @ [NL],
             ''## Practical Examples'' @ [NL, NL] @ renderExamples results @ [NL],
             ''## Common Gotchas'' @ [NL, NL] @ renderGotchas results @ [NL],
             ''## Resources'' @ [NL, NL] @ renderResources results @ [NL]]
      in \<lparr>markdown = join [NL] sections', sections = sections'\<rparr>)"

section \<open>TinyFish client (lib/tinyfish.ts)\<close>

text \<open>
  The answer of the agent's endpoint, as \<open>fetch\<close> delivers it: the call rejects, or there
  is a response with its \<open>ok\<close> flag, its status, what \<open>text()\<close> gives, and its body, a
  reader whose \<open>read()\<close> yields chunks (decoded) until it is done or rejects. The body is a
  finite list: the connection ends.
\<close>

datatype readResult = Chunk string | ReadRejects exn

datatype fetchResult =
    FetchRejects exn
  | Response bool nat "exn + string" "readResult list option"

record TinyFishRunResult =
  tf_success :: bool
  tf_result :: jsval
  tf_error :: jsval
  tf_streamingUrl :: "string option"

text \<open>The callbacks a task run invokes, in order.\<close>

datatype callback = OnStep jsval | OnStreamingUrl string

text \<open>\<open>s.split("\n")\<close>.\<close>

function splitOn :: "char \<Rightarrow> string \<Rightarrow> string list" where
  "splitOn c s =
     (case dropWhile (\<lambda>x. x \<noteq> c) s of
        [] \<Rightarrow> [takeWhile (\<lambda>x. x \<noteq> c) s]
      | _ # rest \<Rightarrow> takeWhile (\<lambda>x. x \<noteq> c) s # splitOn c rest)"
  by pat_completeness auto
termination
proof (relation "measure (\<lambda>(c, s). length s)")
  fix c :: char and s x rest
  assume "dropWhile (\<lambda>x. x \<noteq> c) s = x # rest"
  then have "length (x # rest) \<le> length s"
    using length_dropWhile_le [of "\<lambda>x. x \<noteq> c" s] by simp
  then show "((c, rest), (c, s)) \<in> measure (\<lambda>(c, s). length s)" by simp
qed simp

declare splitOn.simps [simp del]

definition parseSseLine :: "(string \<Rightarrow> jsval option) \<Rightarrow> string \<Rightarrow> jsval" where
  "parseSseLine JSON_parse line =
     (if \<not> startsWith line ''data:'' then JNull
      else
        (let payload = trim (drop 5 line)
         in if payload = [] \<or> payload = ''[DONE]'' then JNull
            else (case JSON_parse payload of Some event \<Rightarrow> event | None \<Rightarrow> JNull)))"

definition readStepMessage :: "jsval \<Rightarrow> jsval" where
  "readStepMessage event =
     orElse (orElse (orElse (orElse (orElse (orElse (orElse
       (getProp event ''purpose'')
       (getProp event ''action''))
       (getProp event ''message''))
       (getProp event ''step''))
       (getProp event ''description''))
       (getProp event ''text''))
       (getProp event ''content''))
       (JStr ''Processing source...'')"

definition readStreamingUrl :: "jsval \<Rightarrow> string option" where
  "readStreamingUrl event =
     (case getProp event ''streamingUrl'' of
        JStr s \<Rightarrow>
          if length s > 0 then Some s
          else (case getProp event ''url'' of
                  JStr u \<Rightarrow> if startsWith u ''http'' then Some u else None
                | _ \<Rightarrow> None)
      | _ \<Rightarrow>
          (case getProp event ''url'' of
             JStr u \<Rightarrow> if startsWith u ''http'' then Some u else None
           | _ \<Rightarrow> None))"

text \<open>
  \<open>v?.toUpperCase()\<close>: \<open>undefined\<close> on \<open>undefined\<close> and \<open>null\<close>, the upper-case string on a
  string, and a \<open>TypeError\<close> on any other value, which has no such method.
\<close>

fun optUpperCase :: "string \<Rightarrow> jsval \<Rightarrow> exn + string option" where
  "optUpperCase callee JUndefined = Inr None"
| "optUpperCase callee JNull = Inr None"
| "optUpperCase callee (JStr s) = Inr (Some (toUpperCase s))"
| "optUpperCase callee _ = Inl (TypeError (callee @ '' is not a function''))"

definition isComplete :: "jsval \<Rightarrow> exn + bool" where
  "isComplete event =
     (case optUpperCase ''event.type?.toUpperCase'' (getProp event ''type'') of
        Inl e \<Rightarrow> Inl e
      | Inr type' \<Rightarrow>
          (case optUpperCase ''event.status?.toUpperCase'' (getProp event ''status'') of
             Inl e \<Rightarrow> Inl e
           | Inr status \<Rightarrow>
               Inr (type' = Some ''COMPLETE'' \<and>
                    (\<not> present status \<or> status = Some ''COMPLETED'' \<or> status = Some ''DONE''))))"

definition isFailure :: "jsval \<Rightarrow> exn + bool" where
  "isFailure event =
     (case optUpperCase ''event.type?.toUpperCase'' (getProp event ''type'') of
        Inl e \<Rightarrow> Inl e
      | Inr type' \<Rightarrow>
          (case optUpperCase ''event.status?.toUpperCase'' (getProp event ''status'') of
             Inl e \<Rightarrow> Inl e
           | Inr status \<Rightarrow>
               Inr (type' = Some ''ERROR'' \<or> status = Some ''FAILED'' \<or> status = Some ''ERROR'')))"

text \<open>The \<open>catch\<close> of \<open>runTinyFishTask\<close>, with the streaming URL known when the error is thrown.\<close>

definition caught :: "exn \<Rightarrow> string option \<Rightarrow> TinyFishRunResult" where
  "caught e streamingUrl =
     \<lparr>tf_success = False, tf_result = JUndefined, tf_error = JStr (message_of e),
      tf_streamingUrl = streamingUrl\<rparr>"

text \<open>
  The body of the loop over the lines for one event that is truthy: the callbacks it
  invokes, the streaming URL after it, and how it leaves: an exception, a returned
  result, or on to the next line.
\<close>

definition processEvent ::
  "jsval \<Rightarrow> string option \<Rightarrow> callback list \<times> string option \<times> (exn + TinyFishRunResult option)" where
  "processEvent event streamingUrl =
     (let maybeStreamingUrl = readStreamingUrl event;
          streamingUrl' = (if present maybeStreamingUrl then maybeStreamingUrl else streamingUrl);
          cbs1 = (if present maybeStreamingUrl then [OnStreamingUrl (the maybeStreamingUrl)] else [])
      in case optUpperCase ''event.type?.toUpperCase'' (getProp event ''type'') of
           Inl e \<Rightarrow> (cbs1, streamingUrl', Inl e)
         | Inr type' \<Rightarrow>
             (let cbs2 = cbs1 @ (if type' = Some ''STEP'' then [OnStep (readStepMessage event)] else [])
              in case isComplete event of
                   Inl e \<Rightarrow> (cbs2, streamingUrl', Inl e)
                 | Inr True \<Rightarrow>
                     (cbs2, streamingUrl',
                      Inr (Some \<lparr>tf_success = True,
                                 tf_result =
                                   nullish (nullish (nullish (nullish
                                     (getProp event ''resultJson'')
                                     (getProp event ''result''))
                                     (getProp event ''output''))
                                     (getProp event ''data''))
                                     JNull,
                                 tf_error = JUndefined,
                                 tf_streamingUrl = streamingUrl'\<rparr>))
                 | Inr False \<Rightarrow>
                     (case isFailure event of
                        Inl e \<Rightarrow> (cbs2, streamingUrl', Inl e)
                      | Inr True \<Rightarrow>
                          (cbs2, streamingUrl',
                           Inr (Some \<lparr>tf_success = False,
                                      tf_result = JUndefined,
                                      tf_error = orElse (getProp event ''message'')
                                        (JStr ''TinyFish reported a failure event.''),
                                      tf_streamingUrl = streamingUrl'\<rparr>))
                      | Inr False \<Rightarrow> (cbs2, streamingUrl', Inr None))))"

fun processLines ::
  "(string \<Rightarrow> jsval option) \<Rightarrow> string list \<Rightarrow> string option
     \<Rightarrow> callback list \<times> string option \<times> (exn + TinyFishRunResult option)" where
  "processLines JSON_parse [] streamingUrl = ([], streamingUrl, Inr None)"
| "processLines JSON_parse (line # lines) streamingUrl =
     (let event = parseSseLine JSON_parse line
      in if \<not> truthy event then processLines JSON_parse lines streamingUrl
         else
           (case processEvent event streamingUrl of
              (cbs, streamingUrl', Inr None) \<Rightarrow>
                (case processLines JSON_parse lines streamingUrl' of
                   (cbs', rest) \<Rightarrow> (cbs @ cbs', rest))
            | leave \<Rightarrow> leave))"

fun readLoop ::
  "(string \<Rightarrow> jsval option) \<Rightarrow> readResult list \<Rightarrow> string \<Rightarrow> string option
     \<Rightarrow> callback list \<times> TinyFishRunResult" where
  "readLoop JSON_parse [] buffer streamingUrl =
     ([], \<lparr>tf_success = False, tf_result = JUndefined,
           tf_error = JStr ''TinyFish stream ended before a completion event.'',
           tf_streamingUrl = streamingUrl\<rparr>)"
| "readLoop JSON_parse (ReadRejects e # reads) buffer streamingUrl = ([], caught e streamingUrl)"
| "readLoop JSON_parse (Chunk value # reads) buffer streamingUrl =
     (let lines = splitOn NL (buffer @ value);
          buffer' = last lines
      in case processLines JSON_parse (butlast lines) streamingUrl of
           (cbs, streamingUrl', Inl e) \<Rightarrow> (cbs, caught e streamingUrl')
         | (cbs, streamingUrl', Inr (Some result)) \<Rightarrow> (cbs, result)
         | (cbs, streamingUrl', Inr None) \<Rightarrow>
             (case readLoop JSON_parse reads buffer' streamingUrl' of
                (cbs', result) \<Rightarrow> (cbs @ cbs', result)))"

definition runTinyFishTask ::
  "(string \<Rightarrow> jsval option) \<Rightarrow> fetchResult \<Rightarrow> callback list \<times> TinyFishRunResult" where
  "runTinyFishTask JSON_parse fetched =
     (case fetched of
        FetchRejects e \<Rightarrow> ([], caught e None)
      | Response ok status text body \<Rightarrow>
          if \<not> ok then
            (case text of
               Inl e \<Rightarrow> ([], caught e None)
             | Inr t \<Rightarrow>
                 ([], \<lparr>tf_success = False, tf_result = JUndefined,
                       tf_error = JStr (''TinyFish request failed ('' @ showNat status @ ''): '' @ t),
                       tf_streamingUrl = None\<rparr>))
          else
            (case body of
               None \<Rightarrow>
                 ([], \<lparr>tf_success = False, tf_result = JUndefined,
                       tf_error = JStr ''TinyFish response body was empty.'',
                       tf_streamingUrl = None\<rparr>)
             | Some reads \<Rightarrow> readLoop JSON_parse reads [] None))"

section \<open>Source discovery (lib/source-discovery.ts)\<close>

text \<open>A result of the search provider; the code reads these fields, all of them strings.\<close>

record SearchResult =
  sr_title :: string
  sr_description :: string
  sr_rawDescription :: string
  sr_hostname :: string
  sr_url :: string

definition SOURCE_TYPES :: "SourceType list" where
  "SOURCE_TYPES = [docs, github, stackoverflow, blog]"

fun SOURCE_QUERIES :: "SourceType \<Rightarrow> string list" where
  "SOURCE_QUERIES docs =
     [''{topic} official documentation'',
      ''{topic} api reference docs'',
      ''{topic} developer guide documentation'',
      ''{topic} getting started guide'']"
| "SOURCE_QUERIES github =
     [''{topic} site:github.com'',
      ''{topic} github issues'',
      ''{topic} github discussions'',
      ''{topic} github repository'']"
| "SOURCE_QUERIES stackoverflow =
     [''{topic} site:stackoverflow.com'',
      ''{topic} stackoverflow how to'',
      ''{topic} stackoverflow error'',
      ''{topic} stackoverflow best practice'']"
| "SOURCE_QUERIES blog =
     [''{topic} tutorial blog'',
      ''{topic} best practices guide'',
      ''{topic} tutorial dev.to OR medium.com OR hashnode'',
      ''{topic} deep dive explained'']"

definition KNOWN_BLOG_DOMAINS :: "string list" where
  "KNOWN_BLOG_DOMAINS =
     [''dev.to'', ''medium.com'', ''hashnode.com'', ''freecodecamp.org'', ''digitalocean.com'',
      ''smashingmagazine.com'', ''css-tricks.com'', ''martinfowler.com'', ''substack.com'']"

fun typeName :: "SourceType \<Rightarrow> string" where
  "typeName docs = ''docs''"
| "typeName github = ''github''"
| "typeName stackoverflow = ''stackoverflow''"
| "typeName blog = ''blog''"

text \<open>\<open>s.includes(needle)\<close>.\<close>

fun includesStr :: "string \<Rightarrow> string \<Rightarrow> bool" where
  "includesStr [] needle = (needle = [])"
| "includesStr (c # cs) needle = (startsWith (c # cs) needle \<or> includesStr cs needle)"

text \<open>\<open>value.replace(/<[^>]+>/g, "")\<close>: a tag is deleted where it matches.\<close>

function stripTags :: "string \<Rightarrow> string" where
  "stripTags [] = []"
| "stripTags (c # cs) =
     (let inner = takeWhile (\<lambda>x. x \<noteq> CHR ''>'') cs;
          after = dropWhile (\<lambda>x. x \<noteq> CHR ''>'') cs
      in if c = CHR ''<'' \<and> inner \<noteq> [] \<and> after \<noteq> [] then stripTags (tl after)
         else c # stripTags cs)"
  by pat_completeness auto
termination
proof (relation "measure length")
  fix c :: char and cs inner after
  assume "after = dropWhile (\<lambda>x. x \<noteq> CHR ''>'') cs"
  then have "length (tl after) \<le> length cs"
    using length_dropWhile_le [of "\<lambda>x. x \<noteq> CHR ''>''" cs] by simp
  then show "(tl after, c # cs) \<in> measure length" by simp
qed simp_all

definition cleanSnippet :: "string \<Rightarrow> string" where
  "cleanSnippet value = trim (collapseWhiteSpace (stripTags value))"

text \<open>
  \<open>new URL(url)\<close> with the fragment cleared and printed again is a parameter: \<open>None\<close>
  when the constructor throws.
\<close>

definition normalizeUrl :: "(string \<Rightarrow> string option) \<Rightarrow> string \<Rightarrow> string" where
  "normalizeUrl parseUrl url =
     (case parseUrl url of
        Some normalized \<Rightarrow>
          if endsWith normalized ''/'' then sliceDropLast 1 normalized else normalized
      | None \<Rightarrow> url)"

definition isAlnum :: "char \<Rightarrow> bool" where
  "isAlnum c =
     (let n = of_char c :: nat
      in (48 \<le> n \<and> n \<le> 57) \<or> (65 \<le> n \<and> n \<le> 90) \<or> (97 \<le> n \<and> n \<le> 122))"

definition createSourceId ::
  "(string \<Rightarrow> string option) \<Rightarrow> SourceType \<Rightarrow> string \<Rightarrow> nat \<Rightarrow> string" where
  "createSourceId parseUrl type' url index =
     (let compact = sliceLast 14 (filter isAlnum (normalizeUrl parseUrl url))
      in typeName type' @ ''-'' @ showNat index @ ''-'' @ compact)"

definition tokenizeTopic :: "string \<Rightarrow> string list" where
  "tokenizeTopic topic =
     filter (\<lambda>token. length token > 2)
       (map trim
          (splitRuns (\<lambda>c. isWhiteSpace c \<or> c = CHR ''/'' \<or> c = CHR ''-'') (toLowerCase topic)))"

definition hasAny :: "string \<Rightarrow> string list \<Rightarrow> bool" where
  "hasAny value needles = list_ex (\<lambda>needle. includesStr value needle) needles"

definition isDocsResult :: "SearchResult \<Rightarrow> bool" where
  "isDocsResult result =
     (let hostname = toLowerCase (sr_hostname result);
          url = toLowerCase (sr_url result);
          docsHints = [''docs.'', ''developer.'', ''readthedocs'', ''/docs'', ''/api'',
            ''/reference'', ''/manual'', ''/guide'', ''/learn'', ''/getting-started'', ''wiki'']
      in if includesStr hostname ''github.com'' \<or> includesStr hostname ''stackoverflow.com'' then False
         else if hasAny hostname KNOWN_BLOG_DOMAINS \<or> includesStr hostname ''blog.'' then False
         else hasAny hostname docsHints \<or> hasAny url docsHints)"

definition isGithubResult :: "SearchResult \<Rightarrow> bool" where
  "isGithubResult result = includesStr (toLowerCase (sr_hostname result)) ''github.com''"

definition isStackOverflowResult :: "SearchResult \<Rightarrow> bool" where
  "isStackOverflowResult result =
     (let hostname = toLowerCase (sr_hostname result)
      in includesStr hostname ''stackoverflow.com'' \<or> includesStr hostname ''stackexchange.com'')"

definition isBlogResult :: "SearchResult \<Rightarrow> bool" where
  "isBlogResult result =
     (let hostname = toLowerCase (sr_hostname result);
          url = toLowerCase (sr_url result)
      in if includesStr hostname ''github.com'' \<or> includesStr hostname ''stackoverflow.com'' then False
         else hasAny hostname KNOWN_BLOG_DOMAINS \<or> includesStr hostname ''blog.'' \<or>
              includesStr url ''/blog/'' \<or> includesStr url ''/tutorial'' \<or> includesStr url ''/guide'' \<or>
              includesStr url ''/post/'' \<or> includesStr url ''/article'')"

fun matchesType :: "SearchResult \<Rightarrow> SourceType \<Rightarrow> bool" where
  "matchesType result docs = isDocsResult result"
| "matchesType result github = isGithubResult result"
| "matchesType result stackoverflow = isStackOverflowResult result"
| "matchesType result blog = isBlogResult result"

definition bonus :: "bool \<Rightarrow> nat \<Rightarrow> nat" where
  "bonus b n = (if b then n else 0)"

definition scoreResult :: "SearchResult \<Rightarrow> SourceType \<Rightarrow> string list \<Rightarrow> nat" where
  "scoreResult result type' topicTokens =
     (let title = toLowerCase (sr_title result);
          description = toLowerCase (sr_rawDescription result);
          url = toLowerCase (sr_url result);
          score = foldl (\<lambda>score token.
            score + bonus (includesStr title token) 2 + bonus (includesStr description token) 1 +
            bonus (includesStr url token) 1) 0 topicTokens
      in score +
         (case type' of
            docs \<Rightarrow> bonus (includesStr url ''/docs'') 2 + bonus (includesStr url ''/reference'') 2
          | github \<Rightarrow> bonus (includesStr url ''/discussions'') 2 + bonus (includesStr url ''/issues'') 2 +
              bonus (includesStr url ''/wiki'') 1
          | stackoverflow \<Rightarrow> bonus (includesStr url ''/questions/'') 3
          | blog \<Rightarrow> bonus (includesStr url ''/tutorial'') 2 + bonus (includesStr url ''/guide'') 1))"

text \<open>
  \<open>template.replaceAll("{topic}", topic)\<close>: every occurrence of the pattern, left to
  right, is replaced by the expansion of the replacement, in which \<open>$$\<close> stands for a
  dollar sign, \<open>$&\<close> for the match, and \<open>$\<close> followed by a backquote or a quote for the text
  before or after the match.
\<close>

fun expandReplacement :: "string \<Rightarrow> string \<Rightarrow> string \<Rightarrow> string \<Rightarrow> string" where
  "expandReplacement [] matched preceding following = []"
| "expandReplacement [c] matched preceding following = [c]"
| "expandReplacement (c # d # r) matched preceding following =
     (if c \<noteq> CHR ''$'' then c # expandReplacement (d # r) matched preceding following
      else if d = CHR ''$'' then CHR ''$'' # expandReplacement r matched preceding following
      else if d = CHR ''&'' then matched @ expandReplacement r matched preceding following
      else if d = BQ then preceding @ expandReplacement r matched preceding following
      else if d = CHR 0x27 then following @ expandReplacement r matched preceding following
      else c # expandReplacement (d # r) matched preceding following)"

function replaceAllFrom :: "string \<Rightarrow> string \<Rightarrow> string \<Rightarrow> string \<Rightarrow> string" where
  "replaceAllFrom pattern replacement preceding [] = []"
| "replaceAllFrom pattern replacement preceding (c # cs) =
     (if pattern \<noteq> [] \<and> startsWith (c # cs) pattern then
        expandReplacement replacement pattern preceding (drop (length pattern) (c # cs)) @
        replaceAllFrom pattern replacement (preceding @ pattern) (drop (length pattern) (c # cs))
      else c # replaceAllFrom pattern replacement (preceding @ [c]) cs)"
  by pat_completeness auto
termination
  by (relation "measure (\<lambda>(p, r, b, s). length s)") auto

definition replaceAll :: "string \<Rightarrow> string \<Rightarrow> string \<Rightarrow> string" where
  "replaceAll s pattern replacement = replaceAllFrom pattern replacement [] s"

text \<open>
  \<open>encodeURIComponent\<close> is a parameter: \<open>None\<close> when it throws the \<open>URIError\<close> of a
  malformed string. \<open>makeFallback\<close> is the local function \<open>make\<close> of \<open>defaultFallbacks\<close>.
\<close>

definition makeFallback ::
  "(string \<Rightarrow> string option) \<Rightarrow> string \<Rightarrow> SourceType \<Rightarrow> string \<Rightarrow> string \<Rightarrow> nat \<Rightarrow> DiscoveredSource" where
  "makeFallback parseUrl topic type' url title i =
     \<lparr>ds_id = createSourceId parseUrl type' url i,
      ds_type = type',
      ds_title = title,
      ds_url = url,
      ds_reason = ''Fallback '' @ typeName type' @ '' source for '' @ topic @ ''.'',
      ds_query = topic @ '' '' @ typeName type'\<rparr>"

definition defaultFallbacks ::
  "(string \<Rightarrow> string option) \<Rightarrow> (string \<Rightarrow> string option) \<Rightarrow> string \<Rightarrow> SourceType
     \<Rightarrow> exn + DiscoveredSource list" where
  "defaultFallbacks parseUrl encodeURIComponent topic type' =
     (case encodeURIComponent topic of
        None \<Rightarrow> Inl (URIError ''URI malformed'')
      | Some encoded \<Rightarrow>
          Inr (case type' of
            docs \<Rightarrow>
              [makeFallback parseUrl topic type' (''https://www.google.com/search?q='' @ encoded @ ''+official+documentation'')
                 (topic @ '' documentation search'') 0,
               makeFallback parseUrl topic type' (''https://www.google.com/search?q='' @ encoded @ ''+api+reference+docs'')
                 (topic @ '' API reference'') 1,
               makeFallback parseUrl topic type' (''https://www.google.com/search?q='' @ encoded @ ''+getting+started+guide'')
                 (topic @ '' getting started'') 2]
          | github \<Rightarrow>
              [makeFallback parseUrl topic type' (''https://github.com/search?q='' @ encoded @ ''&type=repositories'')
                 (topic @ '' GitHub repos'') 0,
               makeFallback parseUrl topic type' (''https://github.com/search?q='' @ encoded @ ''&type=discussions'')
                 (topic @ '' GitHub discussions'') 1,
               makeFallback parseUrl topic type' (''https://github.com/search?q='' @ encoded @ ''&type=issues'')
                 (topic @ '' GitHub issues'') 2]
          | stackoverflow \<Rightarrow>
              [makeFallback parseUrl topic type' (''https://stackoverflow.com/search?q='' @ encoded)
                 (topic @ '' Stack Overflow search'') 0,
               makeFallback parseUrl topic type' (''https://stackoverflow.com/search?q='' @ encoded @ ''+error'')
                 (topic @ '' SO common errors'') 1,
               makeFallback parseUrl topic type' (''https://stackoverflow.com/search?q='' @ encoded @ ''+best+practice'')
                 (topic @ '' SO best practices'') 2]
          | blog \<Rightarrow>
              [makeFallback parseUrl topic type' (''https://dev.to/search?q='' @ encoded)
                 (topic @ '' dev.to articles'') 0,
               makeFallback parseUrl topic type' (''https://medium.com/search?q='' @ encoded)
                 (topic @ '' Medium articles'') 1,
               makeFallback parseUrl topic type' (''https://www.google.com/search?q='' @ encoded @ ''+tutorial+blog'')
                 (topic @ '' tutorial search'') 2]))"

text \<open>
  The ranking of one query's results: those of the type, scored, in descending order of
  score; the sort is stable.
\<close>

definition rankResults :: "SourceType \<Rightarrow> string list \<Rightarrow> SearchResult list \<Rightarrow> (SearchResult \<times> nat) list" where
  "rankResults type' topicTokens results =
     sort_key (\<lambda>entry. - int (snd entry))
       (map (\<lambda>result. (result, scoreResult result type' topicTokens + 1))
          (filter (\<lambda>result. matchesType result type') results))"

text \<open>
  The loop over the ranked entries of one query. The state is \<open>selected\<close> and \<open>seen\<close>; the
  flag tells that the loop returned from \<open>discoverByType\<close> with the quota filled.
\<close>

fun selectRanked ::
  "(string \<Rightarrow> string option) \<Rightarrow> SourceType \<Rightarrow> string \<Rightarrow> nat \<Rightarrow> (SearchResult \<times> nat) list
     \<Rightarrow> DiscoveredSource list \<Rightarrow> string list \<Rightarrow> DiscoveredSource list \<times> string list \<times> bool" where
  "selectRanked parseUrl type' query maxPerType [] selected seen = (selected, seen, False)"
| "selectRanked parseUrl type' query maxPerType (entry # ranked) selected seen =
     (let normalizedUrl = normalizeUrl parseUrl (sr_url (fst entry))
      in if normalizedUrl \<in> set seen then
           selectRanked parseUrl type' query maxPerType ranked selected seen
         else
           (let seen' = normalizedUrl # seen;
                selected' = selected @
                  [\<lparr>ds_id = createSourceId parseUrl type' normalizedUrl (length selected),
                    ds_type = type',
                    ds_title = trim (sr_title (fst entry)),
                    ds_url = normalizedUrl,
                    ds_reason = cleanSnippet
                      (if sr_description (fst entry) \<noteq> [] then sr_description (fst entry)
                       else sr_rawDescription (fst entry)),
                    ds_query = query\<rparr>]
            in if length selected' \<ge> maxPerType then (selected', seen', True)
               else selectRanked parseUrl type' query maxPerType ranked selected' seen'))"

text \<open>
  The loop over the queries. The search provider is a parameter: \<open>None\<close> when the search
  throws, which the loop swallows.
\<close>

fun queryLoop ::
  "(string \<Rightarrow> SearchResult list option) \<Rightarrow> (string \<Rightarrow> string option) \<Rightarrow> SourceType
     \<Rightarrow> string list \<Rightarrow> nat \<Rightarrow> string list
     \<Rightarrow> DiscoveredSource list \<Rightarrow> string list \<Rightarrow> DiscoveredSource list \<times> string list \<times> bool" where
  "queryLoop search parseUrl type' topicTokens maxPerType [] selected seen = (selected, seen, False)"
| "queryLoop search parseUrl type' topicTokens maxPerType (query # queries) selected seen =
     (case search query of
        None \<Rightarrow> queryLoop search parseUrl type' topicTokens maxPerType queries selected seen
      | Some results \<Rightarrow>
          (case selectRanked parseUrl type' query maxPerType
                  (rankResults type' topicTokens results) selected seen of
             (selected', seen', True) \<Rightarrow> (selected', seen', True)
           | (selected', seen', False) \<Rightarrow>
               queryLoop search parseUrl type' topicTokens maxPerType queries selected' seen'))"

fun fallbackLoop ::
  "nat \<Rightarrow> string list \<Rightarrow> DiscoveredSource list \<Rightarrow> DiscoveredSource list \<Rightarrow> DiscoveredSource list" where
  "fallbackLoop maxPerType seen [] selected = selected"
| "fallbackLoop maxPerType seen (fallback # fallbacks) selected =
     (let selected' = (if ds_url fallback \<notin> set seen then selected @ [fallback] else selected)
      in if length selected' \<ge> maxPerType then selected'
         else fallbackLoop maxPerType seen fallbacks selected')"

definition discoverByType ::
  "(string \<Rightarrow> SearchResult list option) \<Rightarrow> (string \<Rightarrow> string option) \<Rightarrow> (string \<Rightarrow> string option)
     \<Rightarrow> string \<Rightarrow> SourceType \<Rightarrow> nat \<Rightarrow> exn + DiscoveredSource list" where
  "discoverByType search parseUrl encodeURIComponent topic type' maxPerType =
     (let topicTokens = tokenizeTopic topic;
          queries = map (\<lambda>template. replaceAll template ''{topic}'' topic) (SOURCE_QUERIES type')
      in case queryLoop search parseUrl type' topicTokens maxPerType queries [] [] of
           (selected, seen, True) \<Rightarrow> Inr selected
         | (selected, seen, False) \<Rightarrow>
             if length selected < maxPerType then
               (case defaultFallbacks parseUrl encodeURIComponent topic type' of
                  Inl e \<Rightarrow> Inl e
                | Inr fallbacks \<Rightarrow>
                    Inr (take maxPerType (fallbackLoop maxPerType seen fallbacks selected)))
             else Inr (take maxPerType selected))"

text \<open>\<open>Promise.all\<close> over results that may be rejections: the values, or a rejection.\<close>

fun allSettled :: "(exn + 'a) list \<Rightarrow> exn + 'a list" where
  "allSettled [] = Inr []"
| "allSettled (Inl e # rs) = Inl e"
| "allSettled (Inr v # rs) = (case allSettled rs of Inl e \<Rightarrow> Inl e | Inr vs \<Rightarrow> Inr (v # vs))"

text \<open>The \<open>Map\<close> keyed by URL keeps the first source of each URL, in insertion order.\<close>

fun dedupeByUrl :: "DiscoveredSource list \<Rightarrow> string list \<Rightarrow> DiscoveredSource list" where
  "dedupeByUrl [] keys = []"
| "dedupeByUrl (source # flattened) keys =
     (if ds_url source \<notin> set keys then source # dedupeByUrl flattened (ds_url source # keys)
      else dedupeByUrl flattened keys)"

definition discoverSources ::
  "(string \<Rightarrow> SearchResult list option) \<Rightarrow> (string \<Rightarrow> string option) \<Rightarrow> (string \<Rightarrow> string option)
     \<Rightarrow> string \<Rightarrow> int \<Rightarrow> exn + DiscoveredSource list" where
  "discoverSources search parseUrl encodeURIComponent topic maxPerType =
     (let limit = max 1 (min maxPerType 3)
      in case allSettled (map (\<lambda>type'.
             discoverByType search parseUrl encodeURIComponent topic type' (nat limit)) SOURCE_TYPES) of
           Inl e \<Rightarrow> Inl e
         | Inr results \<Rightarrow> Inr (dedupeByUrl (concat results) []))"

subsection \<open>The earlier copy of the module (src/unnamed/part_000)\<close>











section \<open>Pipeline controller (app/api/generate-guide/route.ts)\<close>

datatype PipelinePhase = idle | discovering | scraping | synthesizing | complete | error

record GenerationStats =
  sourceCount :: nat
  successCount :: nat
  generatedWords :: nat

text \<open>
  The events of the stream. A \<open>source_update\<close> always has the status \<open>scraping\<close>; its step
  and the error of a \<open>source_error\<close> are what the agent sent, of any type.
\<close>

datatype StreamEvent =
    EvPhase PipelinePhase string
  | EvDiscoveryComplete "DiscoveredSource list"
  | EvSourceUpdate string jsval "string option"
  | EvSourceComplete string nat
  | EvSourceError string jsval
  | EvGuideChunk string
  | EvComplete string "DiscoveredSource list" GenerationStats
  | EvError string

text \<open>
  What the run depends on besides the request: the engine's \<open>JSON.parse\<close>,
  \<open>JSON.stringify\<close>, \<open>URL\<close> and \<open>encodeURIComponent\<close>, the API key of the environment, the
  search provider, the agent's answer to the task of each source, the order in which the
  concurrent tasks get to send their events, and the clock with its locale.
\<close>

record env =
  env_JSON_parse :: "string \<Rightarrow> jsval option"
  env_render :: "jsval \<Rightarrow> string"
  env_parseUrl :: "string \<Rightarrow> string option"
  env_encodeURIComponent :: "string \<Rightarrow> string option"
  env_apiKey :: "string option"
  env_search :: "string \<Rightarrow> SearchResult list option"
  env_agent :: "DiscoveredSource \<Rightarrow> fetchResult"
  env_schedule :: "nat list"
  env_now :: string
  env_formatDate :: "string \<Rightarrow> string"

record requestBody =
  body_topic :: "string option"
  body_maxPerType :: "int option"

fun relay :: "DiscoveredSource \<Rightarrow> callback \<Rightarrow> StreamEvent" where
  "relay source (OnStep message) = EvSourceUpdate (ds_id source) message None"
| "relay source (OnStreamingUrl streamingUrl) =
     EvSourceUpdate (ds_id source) (JStr ''Live browser preview available.'') (Some streamingUrl)"

text \<open>
  The task of one source, the callback given to \<open>discoveredSources.map\<close>: the events it
  sends, in order, and its outcome, a rejection when \<open>normalizeExtraction\<close> throws.
\<close>

definition scrapeTask :: "env \<Rightarrow> DiscoveredSource \<Rightarrow> StreamEvent list \<times> (exn + ScrapeResult)" where
  "scrapeTask E source =
     (case runTinyFishTask (env_JSON_parse E) (env_agent E source) of
        (cbs, runResult) \<Rightarrow>
          (let sent = EvSourceUpdate (ds_id source) (JStr ''Launching TinyFish browser agent...'') None #
                 map (relay source) cbs
           in if \<not> tf_success runResult \<or> tf_result runResult = JUndefined then
                (let message = orElse (tf_error runResult)
                       (JStr ''TinyFish did not return extracted content.'')
                 in (sent @ [EvSourceError (ds_id source) message],
                     Inr (Failed \<lparr>sf_source = source, sf_error = message\<rparr>)))
              else
                (case normalizeExtraction (env_JSON_parse E) (env_render E)
                        (tf_result runResult) source of
                   Inl e \<Rightarrow> (sent, Inl e)
                 | Inr extracted \<Rightarrow>
                     (let wordCount = countWords (rawText extracted)
                      in (sent @ [EvSourceComplete (ds_id source) wordCount],
                          Inr (Succeeded \<lparr>ss_source = source, ss_extracted = extracted,
                                 ss_wordCount = wordCount\<rparr>))))))"

text \<open>
  The tasks run concurrently and write to one queue: the stream holds an interleaving of
  their event lists. The schedule names, step by step, the task whose next event is
  written; what is left when the schedule ends follows task by task.
\<close>

fun interleave :: "nat list \<Rightarrow> 'a list list \<Rightarrow> 'a list" where
  "interleave [] queues = concat queues"
| "interleave (i # schedule) queues =
     (if i < length queues then
        (case queues ! i of
           [] \<Rightarrow> interleave schedule queues
         | x # xs \<Rightarrow> x # interleave schedule (queues[i := xs]))
      else interleave schedule queues)"

fun successes :: "ScrapeResult list \<Rightarrow> ScrapeSuccess list" where
  "successes [] = []"
| "successes (Succeeded s # rs) = s # successes rs"
| "successes (Failed f # rs) = successes rs"

text \<open>The loop that streams the sections: the events sent and \<open>streamedGuide\<close>.\<close>

fun streamSections :: "string list \<Rightarrow> string \<Rightarrow> StreamEvent list \<times> string" where
  "streamSections [] streamedGuide = ([], streamedGuide)"
| "streamSections (section' # rest) streamedGuide =
     (let chunk = section' @ [NL]
      in case streamSections rest (streamedGuide @ chunk) of
           (sent, streamedGuide') \<Rightarrow> (EvGuideChunk chunk # sent, streamedGuide'))"

text \<open>
  \<open>scrapeAll\<close> is the \<open>Promise.all\<close> of the tasks: the outcomes in the order of the
  sources, or the rejection of a task.
\<close>

definition scrapeAll :: "env \<Rightarrow> DiscoveredSource list \<Rightarrow> exn + ScrapeResult list" where
  "scrapeAll E discoveredSources = allSettled (map (\<lambda>source. snd (scrapeTask E source)) discoveredSources)"

definition scrapeEvents :: "env \<Rightarrow> DiscoveredSource list \<Rightarrow> StreamEvent list" where
  "scrapeEvents E discoveredSources =
     interleave (env_schedule E) (map (\<lambda>source. fst (scrapeTask E source)) discoveredSources)"

definition synthesize :: "env \<Rightarrow> string \<Rightarrow> DiscoveredSource list \<Rightarrow> ScrapeSuccess list \<Rightarrow> StreamEvent list" where
  "synthesize E topic discoveredSources successfulScrapes =
     (let guide = buildGuideMarkdown (env_formatDate E) (env_now E) topic successfulScrapes
      in case streamSections (sections guide) [] of
           (sent, streamedGuide) \<Rightarrow>
             (let finalGuide = trim streamedGuide
              in sent @
                 [EvPhase complete ''Guide generation complete.'',
                  EvComplete finalGuide discoveredSources
                    \<lparr>sourceCount = length discoveredSources,
                     successCount = length successfulScrapes,
                     generatedWords = countWords finalGuide\<rparr>]))"

text \<open>
  The body of the \<open>try\<close> of the run: the events it passes to \<open>sendEvent\<close>, in order, and
  the exception that ends it, if one is thrown. The quota of the request is an integer
  when present. Were a task to reject, \<open>Promise.all\<close> would reject while the other tasks
  go on; the model then ends the \<open>try\<close> after the events of all tasks.
\<close>

definition tryBody :: "env \<Rightarrow> requestBody \<Rightarrow> StreamEvent list \<times> exn option" where
  "tryBody E body =
     (let topic = (case body_topic body of Some t \<Rightarrow> trim t | None \<Rightarrow> []);
          maxPerType = (case body_maxPerType body of Some n \<Rightarrow> max 1 (min n 3) | None \<Rightarrow> 2)
      in if topic = [] then ([EvError ''Topic is required.''], None)
         else if \<not> present (env_apiKey E) then
           ([EvError ''TINYFISH_API_KEY is not configured on the server.''], None)
         else
           (let sent1 = [EvPhase discovering
                  ''Discovering relevant docs, GitHub, Stack Overflow, and blog sources...'']
            in case discoverSources (env_search E) (env_parseUrl E) (env_encodeURIComponent E)
                      topic maxPerType of
                 Inl e \<Rightarrow> (sent1, Some e)
               | Inr discoveredSources \<Rightarrow>
                   if length discoveredSources = 0 then
                     (sent1, Some (Error ''No sources were discovered for this topic.''))
                   else
                     (let sent2 = sent1 @
                            [EvDiscoveryComplete discoveredSources,
                             EvPhase scraping (''Scraping '' @ showNat (length discoveredSources) @
                               '' sources in parallel with TinyFish...'')] @
                            scrapeEvents E discoveredSources
                      in case scrapeAll E discoveredSources of
                           Inl e \<Rightarrow> (sent2, Some e)
                         | Inr scrapeResults \<Rightarrow>
                             (let successfulScrapes = successes scrapeResults
                              in if length successfulScrapes = 0 then
                                   (sent2, Some (Error
                                      ''Scraping finished, but no source returned usable content.''))
                                 else
                                   (sent2 @
                                    [EvPhase synthesizing
                                       ''Synthesizing a single markdown skill guide...''] @
                                    synthesize E topic discoveredSources successfulScrapes,
                                    None)))))"

text \<open>The \<open>catch\<close> of the run sends two events with the message of the exception.\<close>

definition fatal :: "string \<Rightarrow> StreamEvent list" where
  "fatal message = [EvPhase error message, EvError message]"

text \<open>\<open>POST\<close>: the events of the run, those of the \<open>try\<close> and then those of the \<open>catch\<close>.\<close>

definition POST :: "env \<Rightarrow> requestBody \<Rightarrow> StreamEvent list" where
  "POST E body =
     (case tryBody E body of
        (sent, None) \<Rightarrow> sent
      | (sent, Some e) \<Rightarrow> sent @ fatal (message_of e))"

text \<open>
  The stream as written: \<open>sendEvent\<close> drops every event once a write has failed, so the
  client receives the events sent before the first failing write.
\<close>

definition written :: "nat option \<Rightarrow> StreamEvent list \<Rightarrow> StreamEvent list" where
  "written failsAt sent = (case failsAt of None \<Rightarrow> sent | Some k \<Rightarrow> take k sent)"

section \<open>Definitions used to state the properties\<close>

text \<open>The first element of each key, in order: what deduplication by a key means.\<close>

fun firstByKey :: "('a \<Rightarrow> string) \<Rightarrow> 'a list \<Rightarrow> string list \<Rightarrow> 'a list" where
  "firstByKey key [] seen = []"
| "firstByKey key (v # vs) seen =
     (if key v \<in> set seen then firstByKey key vs seen else v # firstByKey key vs (key v # seen))"

definition urlKey :: "ResourceLink \<Rightarrow> string" where
  "urlKey r = toLowerCase (rl_url r)"

text \<open>The resources a payload lists itself, as \<open>normalizeExtraction\<close> reads them.\<close>

definition payloadResources :: "(string \<Rightarrow> jsval option) \<Rightarrow> jsval \<Rightarrow> ResourceLink list" where
  "payloadResources JSON_parse raw =
     (case parseMaybeObject JSON_parse raw of
        None \<Rightarrow> []
      | Some parsed \<Rightarrow>
          toResourceList (orElse (getProp parsed ''resources'') (getProp parsed ''links'')))"

subsection \<open>Sample inputs\<close>

definition sampleSource :: DiscoveredSource where
  "sampleSource =
     \<lparr>ds_id = ''docs-0-examplecomdocs'', ds_type = docs, ds_title = ''Example docs'',
      ds_url = ''https://example.com/docs'', ds_reason = ''Official documentation.'',
      ds_query = ''example official documentation''\<rparr>"

text \<open>An engine whose \<open>JSON.parse\<close> rejects every text, and a rendering of \<open>JSON.stringify\<close>.\<close>

definition noParse :: "string \<Rightarrow> jsval option" where
  "noParse s = None"

definition sampleRender :: "jsval \<Rightarrow> string" where
  "sampleRender v = ''null''"

text \<open>A payload that lists twenty resources, none of them the source.\<close>

definition twentyLinks :: jsval where
  "twentyLinks =
     JObj [(''resources'',
       JArr (map (\<lambda>n. JStr (''https://example.org/r'' @ showNat n)) [0..<20]))]"

text \<open>A payload that lists the source's own URL, in another case of letters, under a label of its own.\<close>

definition explicitLink :: jsval where
  "explicitLink =
     JObj [(''resources'',
       JArr [JObj [(''url'', JStr ''https://EXAMPLE.com/Docs''), (''label'', JStr ''Docs'')]])]"

text \<open>
  An event line of the agent that completes a task, the value a JSON parser reads in it,
  an engine that parses this one text, and the response that carries the line.
\<close>

definition DQ :: char where
  "DQ = CHR 0x22"

definition quote :: "string \<Rightarrow> string" where
  "quote s = [DQ] @ s @ [DQ]"

definition completePayload :: string where
  "completePayload =
     ''{'' @ quote ''type'' @ '':'' @ quote ''COMPLETE'' @ '','' @ quote ''status'' @ '':'' @
     quote ''COMPLETED'' @ '','' @ quote ''resultJson'' @ '':{'' @ quote ''overview'' @ '':'' @
     quote ''Docker packages applications into containers.'' @ ''}}''"

definition completeEvent :: jsval where
  "completeEvent =
     JObj [(''type'', JStr ''COMPLETE''), (''status'', JStr ''COMPLETED''),
           (''resultJson'',
            JObj [(''overview'', JStr ''Docker packages applications into containers.'')])]"

definition sampleParse :: "string \<Rightarrow> jsval option" where
  "sampleParse s = (if s = completePayload then Some completeEvent else None)"

definition completeResponse :: fetchResult where
  "completeResponse =
     Response True 200 (Inr []) (Some [Chunk (''data: '' @ completePayload @ [NL, NL])])"

text \<open>
  A run: the search provider is down, so discovery falls back; every agent task
  completes; the tasks write one after the other.
\<close>

definition sampleEnv :: env where
  "sampleEnv =
     \<lparr>env_JSON_parse = sampleParse,
      env_render = sampleRender,
      env_parseUrl = (\<lambda>url. None),
      env_encodeURIComponent = Some,
      env_apiKey = Some ''sk-tinyfish-key'',
      env_search = (\<lambda>query. None),
      env_agent = (\<lambda>source. completeResponse),
      env_schedule = [],
      env_now = ''2026-01-01T00:00:00.000Z'',
      env_formatDate = (\<lambda>iso. iso)\<rparr>"

definition sampleBody :: requestBody where
  "sampleBody = \<lparr>body_topic = Some ''Docker'', body_maxPerType = Some 1\<rparr>"

subsection \<open>Predicates on results and events\<close>

text \<open>A task result carries a payload whenever it reports success.\<close>

definition resultDefined :: "TinyFishRunResult \<Rightarrow> bool" where
  "resultDefined r \<longleftrightarrow> (tf_success r \<longrightarrow> tf_result r \<noteq> JUndefined)"

text \<open>The payloads of the \<open>guide_chunk\<close> events of a stream, in order.\<close>

fun guideChunks :: "StreamEvent list \<Rightarrow> string list" where
  "guideChunks [] = []"
| "guideChunks (EvGuideChunk chunk # evs) = chunk # guideChunks evs"
| "guideChunks (_ # evs) = guideChunks evs"

text \<open>
  The events of discovery and scraping: no chunk of the guide, no terminal event, and no
  phase but \<open>discovering\<close>, \<open>scraping\<close> and \<open>synthesizing\<close>.
\<close>

fun progress :: "StreamEvent \<Rightarrow> bool" where
  "progress (EvPhase p m) = (p \<noteq> error \<and> p \<noteq> complete)"
| "progress (EvDiscoveryComplete ds) = True"
| "progress (EvSourceUpdate i s u) = True"
| "progress (EvSourceComplete i n) = True"
| "progress (EvSourceError i e) = True"
| "progress (EvGuideChunk c) = False"
| "progress (EvComplete g ds st) = False"
| "progress (EvError m) = False"

text \<open>The chunks the run streams for a guide: each section followed by a line feed.\<close>

definition sectionChunks :: "env \<Rightarrow> string \<Rightarrow> ScrapeSuccess list \<Rightarrow> string list" where
  "sectionChunks E topic successfulScrapes =
     map (\<lambda>s. s @ [NL])
       (sections (buildGuideMarkdown (env_formatDate E) (env_now E) topic successfulScrapes))"

text \<open>
  The words of a text as the specification counts them: the maximal runs of characters
  that are not white space.
\<close>

function tokens :: "string \<Rightarrow> string list" where
  "tokens s =
     (case dropWhile isWhiteSpace s of
        [] \<Rightarrow> []
      | c # cs \<Rightarrow>
          takeWhile (\<lambda>x. \<not> isWhiteSpace x) (c # cs) #
          tokens (dropWhile (\<lambda>x. \<not> isWhiteSpace x) (c # cs)))"
  by pat_completeness auto
termination
proof (relation "measure length")
  fix s :: string and c cs
  assume d: "dropWhile isWhiteSpace s = c # cs"
  then have nw: "\<not> isWhiteSpace c" by (auto simp: dropWhile_eq_Cons_conv)
  have "length (c # cs) \<le> length s"
    using length_dropWhile_le [of isWhiteSpace s] d by simp
  moreover have "length (dropWhile (\<lambda>x. \<not> isWhiteSpace x) (c # cs)) \<le> length cs"
    using nw by (simp add: length_dropWhile_le)
  ultimately show "(dropWhile (\<lambda>x. \<not> isWhiteSpace x) (c # cs), s) \<in> measure length"
    by simp
qed simp

declare tokens.simps [simp del]

text \<open>The terminal events of a stream, and the source an outcome is about.\<close>

fun terminal :: "StreamEvent \<Rightarrow> bool" where
  "terminal (EvComplete g ds st) = True"
| "terminal (EvError m) = True"
| "terminal _ = False"

fun resultSource :: "ScrapeResult \<Rightarrow> DiscoveredSource" where
  "resultSource (Succeeded s) = ss_source s"
| "resultSource (Failed f) = sf_source f"

subsection \<open>Invariants\<close>

text \<open>
  The state of the loops of \<open>discoverByType\<close>: \<open>seen\<close> holds the URLs of the selected
  sources, which are distinct, and the quota is filled exactly when a loop says so.
\<close>

definition selection :: "nat \<Rightarrow> DiscoveredSource list \<times> string list \<times> bool \<Rightarrow> bool" where
  "selection maxPerType st =
     (case st of (selected, seen, filled) \<Rightarrow>
        set seen = ds_url ` set selected \<and> distinct (map ds_url selected) \<and>
        (if filled then length selected = maxPerType else length selected < maxPerType))"


text \<open>The guide of the event that ends a stream, when that event is \<open>complete\<close>.\<close>

definition finalGuide :: "StreamEvent list \<Rightarrow> string option" where
  "finalGuide evs =
     (if evs = [] then None
      else case last evs of EvComplete g ds st \<Rightarrow> Some g | _ \<Rightarrow> None)"


text \<open>
  A second source, and runs in which the agent cannot be reached: for the sources of
  GitHub only, and for every source.
\<close>

definition githubSource :: DiscoveredSource where
  "githubSource =
     \<lparr>ds_id = ''github-0-comexamplerepo'', ds_type = github, ds_title = ''example/repo'',
      ds_url = ''https://github.com/example/repo'', ds_reason = ''Repository.'',
      ds_query = ''example site:github.com''\<rparr>"

definition mixedEnv :: env where
  "mixedEnv = sampleEnv\<lparr>env_agent :=
     (\<lambda>source. if ds_type source = github then FetchRejects (Error ''fetch failed'')
                else completeResponse)\<rparr>"

definition unreachableEnv :: env where
  "unreachableEnv = sampleEnv\<lparr>env_agent := (\<lambda>source. FetchRejects (Error ''fetch failed''))\<rparr>"

fun failed :: "ScrapeResult \<Rightarrow> bool" where
  "failed (Failed f) = True"
| "failed (Succeeded s) = False"

text \<open>A success whose extraction lists nothing, not even a resource.\<close>

definition emptySuccess :: ScrapeSuccess where
  "emptySuccess =
     \<lparr>ss_source = sampleSource,
      ss_extracted =
        \<lparr>overview = [], coreConcepts = [], apis = [], examples = [], commonIssues = [],
         bestPractices = [], resources = [], rawText = []\<rparr>,
      ss_wordCount = 0\<rparr>"

section \<open>The normalizer returns\<close>

lemma normalizeExtraction_returns:
  "(\<exists>e. normalizeExtraction P R raw src = Inr e) \<longleftrightarrow> raw \<noteq> JUndefined"
  by (cases raw)
    (auto simp: normalizeExtraction_def parseMaybeObject_def JSON_stringify_def Let_def
      split: option.splits)

text \<open>
  Claim C1, as stated, fails: on \<open>undefined\<close> the normalizer throws. \<open>parseMaybeObject\<close>
  gives \<open>null\<close>, \<open>JSON.stringify(undefined, null, 2)\<close> is \<open>undefined\<close>, and \<open>deriveOverview\<close>
  calls \<open>replace\<close> on it.
\<close>

theorem normalizeExtraction_undefined_throws:
  "normalizeExtraction noParse sampleRender JUndefined sampleSource =
     Inl (TypeError ''Cannot read properties of undefined (reading 'replace')'')"
  by (simp add: normalizeExtraction_def parseMaybeObject_def JSON_stringify_def)

text \<open>
  Claim C1, amended: for every value \<open>raw\<close> other than \<open>undefined\<close> (\<open>null\<close>, booleans,
  numbers, strings whether JSON or not, arrays, objects with or without the recognised
  keys), every engine and every source, \<open>normalizeExtraction\<close> returns a
  \<open>StructuredExtraction\<close> and does not throw.
\<close>

theorem normalizeExtraction_total_on_defined:
  "raw \<noteq> JUndefined \<Longrightarrow> \<exists>e. normalizeExtraction P R raw src = Inr e"
  using normalizeExtraction_returns by blast

theorem normalizeExtraction_total_on_defined_witness:
  "JNull \<noteq> JUndefined \<and>
   (\<exists>e. normalizeExtraction noParse sampleRender JNull sampleSource = Inr e) \<and>
   JStr ''Some prose with no JSON.'' \<noteq> JUndefined \<and>
   (\<exists>e. normalizeExtraction noParse sampleRender (JStr ''Some prose with no JSON.'') sampleSource = Inr e) \<and>
   JObj [] \<noteq> JUndefined \<and>
   (\<exists>e. normalizeExtraction noParse sampleRender (JObj []) sampleSource = Inr e)"
  using normalizeExtraction_total_on_defined [of JNull noParse sampleRender sampleSource]
    normalizeExtraction_total_on_defined [of "JStr ''Some prose with no JSON.''" noParse sampleRender sampleSource]
    normalizeExtraction_total_on_defined [of "JObj []" noParse sampleRender sampleSource]
  by simp

section \<open>The resources of an extraction\<close>

lemma uniqueLoop_take:
  "length out < m \<Longrightarrow> uniqueLoop key m vs seen out = take m (out @ firstByKey key vs seen)"
proof (induction vs arbitrary: seen out)
  case Nil
  then show ?case by simp
next
  case (Cons v vs)
  show ?case
  proof (cases "key v \<in> set seen")
    case True
    with Cons show ?thesis by simp
  next
    case False
    show ?thesis
    proof (cases "m \<le> Suc (length out)")
      case True
      with Cons.prems have "m = Suc (length out)" by simp
      with False show ?thesis by simp
    next
      case False2: False
      then have "length (out @ [v]) < m" by simp
      from Cons.IH [OF this] False False2 show ?thesis by simp
    qed
  qed
qed

lemma uniqueResources_take:
  "0 < m \<Longrightarrow> uniqueResources vs m = take m (firstByKey urlKey vs [])"
  unfolding uniqueResources_def urlKey_def using uniqueLoop_take [of "[]" m] by simp

lemma uniqueByLowerCase_take:
  "0 < m \<Longrightarrow> uniqueByLowerCase vs m = take m (firstByKey toLowerCase vs [])"
  unfolding uniqueByLowerCase_def using uniqueLoop_take [of "[]" m] by simp

lemma set_firstByKey: "set (firstByKey key vs seen) \<subseteq> set vs"
  by (induction vs arbitrary: seen) auto

lemma keys_firstByKey: "key ` set (firstByKey key vs seen) = key ` set vs - set seen"
  by (induction vs arbitrary: seen) auto

lemma distinct_firstByKey: "distinct (map key (firstByKey key vs seen))"
proof (induction vs arbitrary: seen)
  case (Cons v vs)
  have "key v \<notin> key ` set (firstByKey key vs (key v # seen))"
    by (simp add: keys_firstByKey)
  with Cons show ?case by auto
qed simp

lemma length_firstByKey: "length (firstByKey key vs seen) = card (key ` set vs - set seen)"
proof -
  have "length (firstByKey key vs seen) = length (map key (firstByKey key vs seen))" by simp
  also have "\<dots> = card (set (map key (firstByKey key vs seen)))"
    using distinct_card [OF distinct_firstByKey [of key vs seen]] by simp
  also have "\<dots> = card (key ` set vs - set seen)"
    by (simp add: keys_firstByKey)
  finally show ?thesis .
qed

lemma find_firstByKey:
  "r \<in> set (firstByKey key vs seen) \<Longrightarrow> find (\<lambda>v. key v = key r) vs = Some r"
proof (induction vs arbitrary: seen)
  case (Cons v vs)
  show ?case
  proof (cases "key v = key r")
    case True
    have "key r \<notin> key ` set (firstByKey key vs (key v # seen))"
      using True by (simp add: keys_firstByKey)
    then have "r \<notin> set (firstByKey key vs (key v # seen))" by blast
    moreover have "key r \<in> set seen \<Longrightarrow> r \<notin> set (firstByKey key vs seen)"
      using keys_firstByKey [of key vs seen] by blast
    ultimately show ?thesis using Cons.prems True by (auto split: if_splits)
  next
    case False
    with Cons show ?thesis by (auto split: if_splits)
  qed
qed simp

lemma normalizeExtraction_resources:
  assumes "normalizeExtraction P R raw src = Inr e"
  shows "resources e = take 20 (firstByKey urlKey (payloadResources P raw @ [sourceLink src]) [])"
  using assms
  by (auto simp: normalizeExtraction_def payloadResources_def uniqueResources_take Let_def
      split: option.splits)

text \<open>
  The loop of \<open>uniqueResources\<close> keeps the first entry of each lower-case URL and stops at
  the cap. So the appended link of the source, or a payload entry with its URL, is among the
  resources exactly when fewer than 20 distinct lower-case URLs come before the first
  entry with the source's URL; and every kept entry is the first one of its URL, so that
  a resource the payload lists wins over the appended link.
\<close>

lemma key_in_take_firstByKey:
  assumes "k \<notin> set seen"
  shows "k \<in> key ` set (take n (firstByKey key xs seen)) \<longleftrightarrow>
           (\<exists>v \<in> set xs. key v = k) \<and>
           card (key ` set (takeWhile (\<lambda>v. key v \<noteq> k) xs) - set seen) < n"
  using assms
proof (induction xs arbitrary: seen n)
  case Nil
  then show ?case by simp
next
  case (Cons v vs)
  show ?case
  proof (cases "key v \<in> set seen")
    case True
    with Cons.prems have ne: "key v \<noteq> k" by auto
    have "key ` set (takeWhile (\<lambda>v. key v \<noteq> k) (v # vs)) - set seen =
        key ` set (takeWhile (\<lambda>v. key v \<noteq> k) vs) - set seen"
      using True ne by auto
    with Cons.IH [OF Cons.prems, of n] True ne show ?thesis by simp
  next
    case False
    show ?thesis
    proof (cases n)
      case 0
      then show ?thesis by simp
    next
      case (Suc m)
      show ?thesis
      proof (cases "key v = k")
        case True
        with False Suc show ?thesis by simp
      next
        case ne: False
        let ?A = "key ` set (takeWhile (\<lambda>v. key v \<noteq> k) vs)"
        from ne Cons.prems have k': "k \<notin> set (key v # seen)" by auto
        have eq: "key ` set (takeWhile (\<lambda>v. key v \<noteq> k) (v # vs)) - set seen =
            insert (key v) (?A - set (key v # seen))"
          using ne False by auto
        have notin: "key v \<notin> ?A - set (key v # seen)" by simp
        have fin: "finite (?A - set (key v # seen))" by simp
        have card: "card (key ` set (takeWhile (\<lambda>v. key v \<noteq> k) (v # vs)) - set seen) =
            Suc (card (?A - set (key v # seen)))"
          unfolding eq using fin notin by (rule card_insert_disjoint)
        from Cons.IH [OF k', of m] False ne Suc show ?thesis
          unfolding card by auto
      qed
    qed
  qed
qed

lemma source_link_kept_iff:
  assumes "normalizeExtraction P R raw src = Inr e"
  shows "(\<exists>r \<in> set (resources e). urlKey r = toLowerCase (ds_url src)) \<longleftrightarrow>
           card (urlKey ` set (takeWhile (\<lambda>r. urlKey r \<noteq> toLowerCase (ds_url src))
             (payloadResources P raw))) < 20"
proof -
  let ?k = "toLowerCase (ds_url src)"
  let ?xs = "payloadResources P raw @ [sourceLink src]"
  have key: "urlKey (sourceLink src) = ?k" by (simp add: urlKey_def sourceLink_def)
  have tw: "takeWhile (\<lambda>r. urlKey r \<noteq> ?k) ?xs =
      takeWhile (\<lambda>r. urlKey r \<noteq> ?k) (payloadResources P raw)"
  proof (cases "\<forall>r \<in> set (payloadResources P raw). urlKey r \<noteq> ?k")
    case True
    then have a: "takeWhile (\<lambda>r. urlKey r \<noteq> ?k) (payloadResources P raw) = payloadResources P raw"
      by (simp only: takeWhile_eq_all_conv)
    from True have "takeWhile (\<lambda>r. urlKey r \<noteq> ?k) ?xs =
        payloadResources P raw @ takeWhile (\<lambda>r. urlKey r \<noteq> ?k) [sourceLink src]"
      by (intro takeWhile_append2) simp
    also have "\<dots> = payloadResources P raw" using key by simp
    finally show ?thesis unfolding a .
  next
    case False
    then obtain r where "r \<in> set (payloadResources P raw)" and "\<not> urlKey r \<noteq> ?k"
      by (elim bexE [OF False [unfolded ball_simps]])
    then show ?thesis by (rule takeWhile_append1)
  qed
  have "(\<exists>r \<in> set (resources e). urlKey r = ?k) \<longleftrightarrow> ?k \<in> urlKey ` set (resources e)"
    unfolding image_iff by (rule bex_cong [OF refl]) (rule eq_commute)
  also have "\<dots> \<longleftrightarrow> (\<exists>v \<in> set ?xs. urlKey v = ?k) \<and>
      card (urlKey ` set (takeWhile (\<lambda>v. urlKey v \<noteq> ?k) ?xs) - set []) < 20"
    unfolding normalizeExtraction_resources [OF assms]
    by (rule key_in_take_firstByKey) simp
  also have "\<dots> \<longleftrightarrow> card (urlKey ` set (takeWhile (\<lambda>r. urlKey r \<noteq> ?k)
      (payloadResources P raw))) < 20"
    unfolding tw using key by simp
  finally show ?thesis .
qed

lemma kept_resource_is_first:
  assumes "normalizeExtraction P R raw src = Inr e" and "r \<in> set (resources e)"
  shows "find (\<lambda>v. urlKey v = urlKey r) (payloadResources P raw @ [sourceLink src]) = Some r"
proof -
  from assms(2) have "r \<in> set (firstByKey urlKey (payloadResources P raw @ [sourceLink src]) [])"
    unfolding normalizeExtraction_resources [OF assms(1)] by (rule in_set_takeD)
  then show ?thesis by (rule find_firstByKey)
qed

lemma explicit_resource_kept:
  "map rl_label (resources (projr
     (normalizeExtraction noParse sampleRender explicitLink sampleSource))) = [''Docs'']"
  by code_simp

text \<open>
  Claim C2 says that the resources of \<open>normalizeExtraction(raw, source)\<close> always contain an
  entry with the source's own URL. The code does not do that: when the payload is an
  object whose \<open>resources\<close> array lists twenty entries with twenty distinct URLs, none of
  them the source's, the loop of \<open>uniqueResources\<close> reaches the cap of 20 before the
  appended link of the source, and the extraction has twenty resources, none of which has
  the source's URL, in any case of letters.
\<close>

theorem resources_cap_drops_source_link:
  "(case normalizeExtraction noParse sampleRender twentyLinks sampleSource of
      Inl _ \<Rightarrow> False
    | Inr e \<Rightarrow>
        length (resources e) = 20 \<and>
        ds_url sampleSource \<notin> set (map rl_url (resources e)) \<and>
        toLowerCase (ds_url sampleSource) \<notin> set (map urlKey (resources e)))"
  by code_simp

section \<open>A successful task carries a payload\<close>

lemma nullish_JNull: "nullish a JNull \<noteq> JUndefined"
  by (simp add: nullish_def)

lemma processEvent_defined:
  "processEvent event su = (cbs, su', Inr (Some r)) \<Longrightarrow> resultDefined r"
  by (auto simp: processEvent_def resultDefined_def nullish_JNull Let_def
      split: sum.splits if_splits bool.splits)

lemma processLines_defined:
  "processLines P lines su = (cbs, su', Inr (Some r)) \<Longrightarrow> resultDefined r"
proof (induction lines arbitrary: su cbs)
  case Nil
  then show ?case by simp
next
  case (Cons line lines)
  show ?case
  proof (cases "truthy (parseSseLine P line)")
    case False
    with Cons show ?thesis by simp
  next
    case True
    obtain c1 s1 o1 where pe: "processEvent (parseSseLine P line) su = (c1, s1, o1)"
      by (cases "processEvent (parseSseLine P line) su") auto
    show ?thesis
    proof (cases o1)
      case (Inl e)
      with Cons.prems True pe show ?thesis by simp
    next
      case (Inr ro)
      show ?thesis
      proof (cases ro)
        case None
        obtain c2 rest where pl: "processLines P lines s1 = (c2, rest)"
          by (cases "processLines P lines s1") auto
        with Cons.prems True pe Inr None have "rest = (su', Inr (Some r))" by simp
        with pl have "processLines P lines s1 = (c2, su', Inr (Some r))" by simp
        then show ?thesis by (rule Cons.IH)
      next
        case (Some r')
        with Cons.prems True pe Inr have "r' = r" by simp
        with processEvent_defined pe Inr Some show ?thesis by blast
      qed
    qed
  qed
qed

lemma caught_defined: "resultDefined (caught e su)"
  by (simp add: caught_def resultDefined_def)

lemma readLoop_defined: "resultDefined (snd (readLoop P reads buffer su))"
proof (induction reads arbitrary: buffer su)
  case Nil
  then show ?case by (simp add: resultDefined_def)
next
  case (Cons rd reads)
  show ?case
  proof (cases rd)
    case (ReadRejects e)
    then show ?thesis by (simp add: caught_defined)
  next
    case (Chunk v)
    obtain c s o' where pl: "processLines P (butlast (splitOn NL (buffer @ v))) su = (c, s, o')"
      by (cases "processLines P (butlast (splitOn NL (buffer @ v))) su") auto
    show ?thesis
    proof (cases o')
      case (Inl e)
      with Chunk pl show ?thesis by (simp add: caught_defined Let_def)
    next
      case (Inr ro)
      show ?thesis
      proof (cases ro)
        case None
        obtain c2 r2 where rl: "readLoop P reads (last (splitOn NL (buffer @ v))) s = (c2, r2)"
          by (cases "readLoop P reads (last (splitOn NL (buffer @ v))) s") auto
        with Cons.IH [of "last (splitOn NL (buffer @ v))" s] have "resultDefined r2" by simp
        with Chunk pl Inr None rl show ?thesis by (simp add: Let_def)
      next
        case (Some r)
        with pl Inr have "resultDefined r" using processLines_defined by blast
        with Chunk pl Inr Some show ?thesis by (simp add: Let_def)
      qed
    qed
  qed
qed

lemma runTinyFishTask_defined: "resultDefined (snd (runTinyFishTask P fetched))"
proof (cases fetched)
  case (FetchRejects e)
  then show ?thesis by (simp add: runTinyFishTask_def caught_defined)
next
  case (Response ok status tx body)
  show ?thesis
  proof (cases ok)
    case False
    with Response show ?thesis
      by (cases tx) (simp_all add: runTinyFishTask_def caught_def resultDefined_def)
  next
    case True
    show ?thesis
    proof (cases body)
      case None
      with Response True show ?thesis by (simp add: runTinyFishTask_def resultDefined_def)
    next
      case (Some reads)
      with Response True show ?thesis by (simp add: runTinyFishTask_def readLoop_defined)
    qed
  qed
qed

lemma scrapeTask_failed_iff:
  "(\<exists>f. snd (scrapeTask E source) = Inr (Failed f)) \<longleftrightarrow>
     \<not> tf_success (snd (runTinyFishTask (env_JSON_parse E) (env_agent E source)))"
proof -
  obtain cbs r where run: "runTinyFishTask (env_JSON_parse E) (env_agent E source) = (cbs, r)"
    by (cases "runTinyFishTask (env_JSON_parse E) (env_agent E source)") auto
  have d: "resultDefined r" using runTinyFishTask_defined [of "env_JSON_parse E" "env_agent E source"] run by simp
  show ?thesis
  proof (cases "tf_success r")
    case False
    with run show ?thesis by (simp add: scrapeTask_def Let_def)
  next
    case True
    with d have ne: "tf_result r \<noteq> JUndefined" by (simp add: resultDefined_def)
    then obtain e where "normalizeExtraction (env_JSON_parse E) (env_render E) (tf_result r) source = Inr e"
      using normalizeExtraction_returns by blast
    with run True ne show ?thesis by (simp add: scrapeTask_def Let_def)
  qed
qed


text \<open>
  Claim C10: a result of \<open>runTinyFishTask\<close> with \<open>success = true\<close> has a \<open>result\<close> that is
  not \<open>undefined\<close>, whatever the endpoint answers, since the chain of \<open>??\<close> ends in \<open>null\<close>;
  so the task of a source takes the failure branch of the orchestrator exactly when
  \<open>success\<close> is false.
\<close>

theorem runTinyFishTask_success_has_result:
  "(tf_success (snd (runTinyFishTask P fetched)) \<longrightarrow>
      tf_result (snd (runTinyFishTask P fetched)) \<noteq> JUndefined) \<and>
   ((\<exists>f. snd (scrapeTask E source) = Inr (Failed f)) \<longleftrightarrow>
      \<not> tf_success (snd (runTinyFishTask (env_JSON_parse E) (env_agent E source))))"
  using runTinyFishTask_defined [of P fetched] scrapeTask_failed_iff [of E source]
  by (simp add: resultDefined_def)

theorem runTinyFishTask_success_has_result_witness:
  "tf_success (snd (runTinyFishTask sampleParse completeResponse)) \<and>
   tf_result (snd (runTinyFishTask sampleParse completeResponse)) \<noteq> JUndefined"
proof -
  have s: "tf_success (snd (runTinyFishTask sampleParse completeResponse))"
    by code_simp
  have "tf_success (snd (runTinyFishTask sampleParse completeResponse)) \<longrightarrow>
      tf_result (snd (runTinyFishTask sampleParse completeResponse)) \<noteq> JUndefined"
    using runTinyFishTask_success_has_result [of sampleParse completeResponse]
    by (rule conjunct1)
  then have "tf_result (snd (runTinyFishTask sampleParse completeResponse)) \<noteq> JUndefined"
    using s by (rule mp)
  with s show ?thesis by (rule conjI)
qed

section \<open>Words and trimming\<close>

lemma splitRuns_Nil: "splitRuns sep [] = [[]]"
  by (subst splitRuns.simps) simp

lemma splitRuns_sep_head:
  "sep c \<Longrightarrow> splitRuns sep (c # cs) = [] # splitRuns sep (dropWhile sep cs)"
  by (subst splitRuns.simps) simp

lemma splitRuns_last_piece:
  "dropWhile (\<lambda>x. \<not> sep x) s = [] \<Longrightarrow> splitRuns sep s = [s]"
proof -
  assume d: "dropWhile (\<lambda>x. \<not> sep x) s = []"
  then have t: "takeWhile (\<lambda>x. \<not> sep x) s = s"
    by (simp add: dropWhile_eq_Nil_conv takeWhile_eq_all_conv)
  show ?thesis by (subst splitRuns.simps) (simp only: d t Let_def if_True simp_thms)
qed

lemma splitRuns_piece:
  "dropWhile (\<lambda>x. \<not> sep x) s \<noteq> [] \<Longrightarrow>
   splitRuns sep s =
     takeWhile (\<lambda>x. \<not> sep x) s # splitRuns sep (dropWhile sep (dropWhile (\<lambda>x. \<not> sep x) s))"
  by (subst splitRuns.simps) (simp only: Let_def if_False simp_thms)


lemma tokens_dropWhile: "tokens (dropWhile isWhiteSpace s) = tokens s"
  by (subst tokens.simps, subst (2) tokens.simps) (simp add: dropWhile_idem)

lemma tokens_Nil: "tokens [] = []"
  by (subst tokens.simps) simp

lemma tokens_nonws_head:
  "\<not> isWhiteSpace c \<Longrightarrow>
   tokens (c # cs) = takeWhile (\<lambda>x. \<not> isWhiteSpace x) (c # cs) #
     tokens (dropWhile (\<lambda>x. \<not> isWhiteSpace x) (c # cs))"
  by (subst tokens.simps) simp

lemma splitRuns_tokens:
  "filter (\<lambda>w. w \<noteq> []) (splitRuns isWhiteSpace s) = tokens s"
proof (induction "length s" arbitrary: s rule: less_induct)
  case less
  show ?case
  proof (cases s)
    case Nil
    then show ?thesis by (simp add: splitRuns_Nil tokens_Nil)
  next
    case (Cons c cs)
    show ?thesis
    proof (cases "isWhiteSpace c")
      case True
      have shorter: "length (dropWhile isWhiteSpace cs) < length s"
        using Cons length_dropWhile_le [of isWhiteSpace cs] by simp
      have "filter (\<lambda>w. w \<noteq> []) (splitRuns isWhiteSpace s) =
          filter (\<lambda>w. w \<noteq> []) (splitRuns isWhiteSpace (dropWhile isWhiteSpace cs))"
        unfolding Cons splitRuns_sep_head [of isWhiteSpace, OF True] by simp
      also have "\<dots> = tokens (dropWhile isWhiteSpace cs)"
        using less [OF shorter] .
      also have "\<dots> = tokens (dropWhile isWhiteSpace s)"
        using True Cons by simp
      finally show ?thesis by (simp only: tokens_dropWhile)
    next
      case False
      let ?piece = "takeWhile (\<lambda>x. \<not> isWhiteSpace x) s"
      let ?rest = "dropWhile (\<lambda>x. \<not> isWhiteSpace x) s"
      have pne: "?piece \<noteq> []" using Cons False by simp
      have tok: "tokens s = ?piece # tokens ?rest"
        unfolding Cons by (rule tokens_nonws_head [OF False])
      show ?thesis
      proof (cases "?rest = []")
        case True
        then have t: "?piece = s" by (simp add: dropWhile_eq_Nil_conv takeWhile_eq_all_conv)
        have "splitRuns isWhiteSpace s = [s]" using True by (rule splitRuns_last_piece)
        then have "filter (\<lambda>w. w \<noteq> []) (splitRuns isWhiteSpace s) = [s]"
          using Cons by simp
        moreover have "tokens s = [s]" unfolding tok True t tokens_Nil ..
        ultimately show ?thesis by simp
      next
        case rne: False
        have sp: "splitRuns isWhiteSpace s =
            ?piece # splitRuns isWhiteSpace (dropWhile isWhiteSpace ?rest)"
          using rne by (rule splitRuns_piece)
        have "length ?rest \<le> length s" by (rule length_dropWhile_le)
        moreover have "length (dropWhile isWhiteSpace ?rest) < length ?rest"
        proof -
          from rne obtain x xs where r: "?rest = x # xs" by (cases ?rest) auto
          then have "isWhiteSpace x" by (auto simp: dropWhile_eq_Cons_conv)
          then have "dropWhile isWhiteSpace (x # xs) = dropWhile isWhiteSpace xs" by simp
          moreover have "length (dropWhile isWhiteSpace xs) \<le> length xs"
            by (rule length_dropWhile_le)
          ultimately show ?thesis unfolding r by simp
        qed
        ultimately have shorter: "length (dropWhile isWhiteSpace ?rest) < length s" by simp
        have "filter (\<lambda>w. w \<noteq> []) (splitRuns isWhiteSpace s) =
            ?piece # filter (\<lambda>w. w \<noteq> []) (splitRuns isWhiteSpace (dropWhile isWhiteSpace ?rest))"
          unfolding sp using pne by simp
        also have "\<dots> = ?piece # tokens (dropWhile isWhiteSpace ?rest)"
          using less [OF shorter] by simp
        also have "\<dots> = ?piece # tokens ?rest" by (simp only: tokens_dropWhile)
        finally show ?thesis unfolding tok .
      qed
    qed
  qed
qed


lemma tokens_all_ws:
  assumes "\<forall>c \<in> set w. isWhiteSpace c"
  shows "tokens w = []"
proof -
  from assms have d: "dropWhile isWhiteSpace w = []" by simp
  show ?thesis by (subst tokens.simps) (simp only: d list.case)
qed

lemma tokens_append_ws:
  assumes w: "\<forall>c \<in> set w. isWhiteSpace c"
  shows "tokens (a @ w) = tokens a"
proof (induction "length a" arbitrary: a rule: less_induct)
  case less
  show ?case
  proof (cases "dropWhile isWhiteSpace a")
    case Nil
    then have all: "\<forall>c \<in> set a. isWhiteSpace c" by (simp add: dropWhile_eq_Nil_conv)
    with w have "\<forall>c \<in> set (a @ w). isWhiteSpace c" by auto
    then have "tokens (a @ w) = []" by (rule tokens_all_ws)
    moreover have "tokens a = []" using all by (rule tokens_all_ws)
    ultimately show ?thesis by simp
  next
    case (Cons c cs)
    let ?r = "c # cs"
    have nw: "\<not> isWhiteSpace c" using Cons by (auto simp: dropWhile_eq_Cons_conv)
    have "c \<in> set (dropWhile isWhiteSpace a)" using Cons by simp
    then have cin: "c \<in> set a" by (rule set_dropWhileD)
    have "dropWhile isWhiteSpace (a @ w) = dropWhile isWhiteSpace a @ w"
      using cin nw by (rule dropWhile_append1)
    then have d: "dropWhile isWhiteSpace (a @ w) = ?r @ w" using Cons by simp
    have ta: "tokens a = takeWhile (\<lambda>x. \<not> isWhiteSpace x) ?r #
        tokens (dropWhile (\<lambda>x. \<not> isWhiteSpace x) ?r)"
      using Cons by (subst tokens.simps) simp
    have taw: "tokens (a @ w) = takeWhile (\<lambda>x. \<not> isWhiteSpace x) (?r @ w) #
        tokens (dropWhile (\<lambda>x. \<not> isWhiteSpace x) (?r @ w))"
      using d by (subst tokens.simps) simp
    show ?thesis
    proof (cases "\<exists>x \<in> set ?r. isWhiteSpace x")
      case True
      then obtain x where xin: "x \<in> set ?r" and xw: "\<not> \<not> isWhiteSpace x" by blast
      have t: "takeWhile (\<lambda>x. \<not> isWhiteSpace x) (?r @ w) =
          takeWhile (\<lambda>x. \<not> isWhiteSpace x) ?r"
        using xin xw by (rule takeWhile_append1)
      have dd: "dropWhile (\<lambda>x. \<not> isWhiteSpace x) (?r @ w) =
          dropWhile (\<lambda>x. \<not> isWhiteSpace x) ?r @ w"
        using xin xw by (rule dropWhile_append1)
      have "length ?r \<le> length a"
        using length_dropWhile_le [of isWhiteSpace a] Cons by simp
      moreover have "length (dropWhile (\<lambda>x. \<not> isWhiteSpace x) ?r) \<le> length cs"
        using nw by (simp add: length_dropWhile_le)
      ultimately have "length (dropWhile (\<lambda>x. \<not> isWhiteSpace x) ?r) < length a" by simp
      from less [OF this] t dd ta taw show ?thesis by simp
    next
      case False
      then have allr: "\<forall>x \<in> set ?r. \<not> isWhiteSpace x" by blast
      have tw: "takeWhile (\<lambda>x. \<not> isWhiteSpace x) w = []"
        using w by (cases w) simp_all
      have dw: "dropWhile (\<lambda>x. \<not> isWhiteSpace x) w = w"
        using w by (cases w) simp_all
      have "takeWhile (\<lambda>x. \<not> isWhiteSpace x) (?r @ w) =
          ?r @ takeWhile (\<lambda>x. \<not> isWhiteSpace x) w"
        by (rule takeWhile_append2) (use allr in blast)
      then have t: "takeWhile (\<lambda>x. \<not> isWhiteSpace x) (?r @ w) = ?r"
        by (simp only: tw append_Nil2)
      have "dropWhile (\<lambda>x. \<not> isWhiteSpace x) (?r @ w) =
          dropWhile (\<lambda>x. \<not> isWhiteSpace x) w"
        by (rule dropWhile_append2) (use allr in blast)
      then have dd: "dropWhile (\<lambda>x. \<not> isWhiteSpace x) (?r @ w) = w"
        by (simp only: dw)
      have t2: "takeWhile (\<lambda>x. \<not> isWhiteSpace x) ?r = ?r"
        by (rule takeWhile_eq_all_conv [THEN iffD2]) (use allr in blast)
      have d2: "dropWhile (\<lambda>x. \<not> isWhiteSpace x) ?r = []"
        by (rule dropWhile_eq_Nil_conv [THEN iffD2]) (use allr in blast)
      show ?thesis
        unfolding ta taw t dd t2 d2 by (simp only: tokens_all_ws [OF w] tokens_Nil)
    qed
  qed
qed

lemma trim_decompose:
  "dropWhile isWhiteSpace s = trim s @ rev (takeWhile isWhiteSpace (rev (dropWhile isWhiteSpace s)))"
proof -
  let ?u = "dropWhile isWhiteSpace s"
  have "?u = rev (rev ?u)" by simp
  also have "\<dots> = rev (takeWhile isWhiteSpace (rev ?u) @ dropWhile isWhiteSpace (rev ?u))"
    by (simp only: takeWhile_dropWhile_id)
  also have "\<dots> = rev (dropWhile isWhiteSpace (rev ?u)) @ rev (takeWhile isWhiteSpace (rev ?u))"
    by (rule rev_append)
  finally show ?thesis by (simp only: trim_def)
qed

lemma tokens_trim: "tokens (trim s) = tokens s"
proof -
  let ?w = "rev (takeWhile isWhiteSpace (rev (dropWhile isWhiteSpace s)))"
  have "\<forall>c \<in> set ?w. isWhiteSpace c"
    using set_takeWhileD by fastforce
  then have "tokens (trim s @ ?w) = tokens (trim s)" by (rule tokens_append_ws)
  with trim_decompose [of s] have "tokens (dropWhile isWhiteSpace s) = tokens (trim s)" by simp
  then show ?thesis by (simp add: tokens_dropWhile)
qed

lemma countWords_tokens: "countWords s = length (tokens s)"
  by (simp add: countWords_def splitRuns_tokens tokens_trim)

lemma trim_last: "trim s \<noteq> [] \<Longrightarrow> \<not> isWhiteSpace (last (trim s))"
proof -
  let ?v = "dropWhile isWhiteSpace (rev (dropWhile isWhiteSpace s))"
  assume "trim s \<noteq> []"
  then have v: "?v \<noteq> []" by (simp add: trim_def)
  then have "\<not> isWhiteSpace (hd ?v)" by (rule hd_dropWhile)
  moreover have "last (trim s) = hd ?v" using v by (simp add: trim_def last_rev)
  ultimately show ?thesis by simp
qed

lemma trim_neq_trailing_ws:
  assumes "s \<noteq> []" and "isWhiteSpace (last s)"
  shows "trim s \<noteq> s"
proof
  assume eq: "trim s = s"
  with assms(1) have "trim s \<noteq> []" by simp
  then have "\<not> isWhiteSpace (last (trim s))" by (rule trim_last)
  with eq assms(2) show False by simp
qed

section \<open>The shape of a run\<close>

lemma streamSections_eq:
  "streamSections secs acc =
     (map (\<lambda>s. EvGuideChunk (s @ [NL])) secs, acc @ concat (map (\<lambda>s. s @ [NL]) secs))"
  by (induction secs arbitrary: acc) (simp_all add: Let_def)

lemma synthesize_eq:
  "synthesize E topic ds succ =
     map EvGuideChunk (sectionChunks E topic succ) @
     [EvPhase complete ''Guide generation complete.'',
      EvComplete (trim (concat (sectionChunks E topic succ))) ds
        \<lparr>sourceCount = length ds, successCount = length succ,
         generatedWords = countWords (trim (concat (sectionChunks E topic succ)))\<rparr>]"
  by (simp add: synthesize_def sectionChunks_def streamSections_eq Let_def comp_def)

lemma interleave_subset: "set (interleave sched qs) \<subseteq> \<Union> (set ` set qs)"
proof (induction sched arbitrary: qs)
  case Nil
  then show ?case by simp
next
  case (Cons i sched)
  show ?case
  proof (cases "i < length qs")
    case False
    then have "interleave (i # sched) qs = interleave sched qs" by simp
    with Cons.IH [of qs] show ?thesis by simp
  next
    case inb: True
    show ?thesis
    proof (cases "qs ! i")
      case Nil
      with inb have "interleave (i # sched) qs = interleave sched qs" by simp
      with Cons.IH [of qs] show ?thesis by simp
    next
      case hd: (Cons x xs)
      have mem: "x # xs \<in> set qs" using inb nth_mem [of i qs] hd by simp
      have eq: "interleave (i # sched) qs = x # interleave sched (qs[i := xs])"
        using inb hd by simp
      have "set (qs[i := xs]) \<subseteq> insert xs (set qs)" by (rule set_update_subset_insert)
      then have "\<Union> (set ` set (qs[i := xs])) \<subseteq> set xs \<union> \<Union> (set ` set qs)" by auto
      moreover have "set xs \<subseteq> \<Union> (set ` set qs)"
      proof
        fix y assume "y \<in> set xs"
        then have "y \<in> set (x # xs)" by simp
        with mem show "y \<in> \<Union> (set ` set qs)" by (rule_tac UN_I)
      qed
      ultimately have "\<Union> (set ` set (qs[i := xs])) \<subseteq> \<Union> (set ` set qs)" by blast
      with Cons.IH [of "qs[i := xs]"]
      have "set (interleave sched (qs[i := xs])) \<subseteq> \<Union> (set ` set qs)" by blast
      moreover have "x \<in> \<Union> (set ` set qs)"
      proof -
        have "x \<in> set (x # xs)" by simp
        with mem show ?thesis by (rule_tac UN_I)
      qed
      ultimately show ?thesis unfolding eq by simp
    qed
  qed
qed

lemma relay_progress: "progress (relay source cb)"
  by (cases cb) simp_all

lemma scrapeTask_progress: "list_all progress (fst (scrapeTask E source))"
  by (auto simp: scrapeTask_def Let_def list_all_iff relay_progress
      split: prod.splits sum.splits)

lemma scrapeEvents_progress: "list_all progress (scrapeEvents E ds)"
proof -
  have "\<forall>ev \<in> \<Union> (set ` set (map (\<lambda>source. fst (scrapeTask E source)) ds)). progress ev"
    using scrapeTask_progress by (auto simp: list_all_iff)
  moreover have "set (scrapeEvents E ds) \<subseteq>
      \<Union> (set ` set (map (\<lambda>source. fst (scrapeTask E source)) ds))"
    unfolding scrapeEvents_def by (rule interleave_subset)
  ultimately show ?thesis
    unfolding list_all_iff by (meson subsetD)
qed

lemma tryBody_shape:
  "(\<exists>m. tryBody E body = ([EvError m], None)) \<or>
   (\<exists>pre e. tryBody E body = (pre, Some e) \<and> list_all progress pre) \<or>
   (\<exists>pre topic ds results.
      tryBody E body = (pre @ synthesize E topic ds (successes results), None) \<and>
      list_all progress pre \<and> ds \<noteq> [] \<and> scrapeAll E ds = Inr results \<and>
      successes results \<noteq> [])"
proof -
  define topic where "topic = (case body_topic body of Some t \<Rightarrow> trim t | None \<Rightarrow> [])"
  define maxPerType where
    "maxPerType = (case body_maxPerType body of Some n \<Rightarrow> max 1 (min n 3) | None \<Rightarrow> (2::int))"
  define sent1 where "sent1 = [EvPhase discovering
    ''Discovering relevant docs, GitHub, Stack Overflow, and blog sources...'']"
  have p1: "list_all progress sent1" by (simp add: sent1_def)
  show ?thesis
  proof (cases "topic = []")
    case True
    then have "tryBody E body = ([EvError ''Topic is required.''], None)"
      by (simp add: tryBody_def topic_def)
    then have "\<exists>m. tryBody E body = ([EvError m], None)" by (rule exI)
    then show ?thesis by (rule disjI1)
  next
    case topic: False
    show ?thesis
    proof (cases "present (env_apiKey E)")
      case False
      with topic have "tryBody E body =
          ([EvError ''TINYFISH_API_KEY is not configured on the server.''], None)"
        by (simp add: tryBody_def topic_def)
      then have "\<exists>m. tryBody E body = ([EvError m], None)" by (rule exI)
      then show ?thesis by (rule disjI1)
    next
      case key: True
      show ?thesis
      proof (cases "discoverSources (env_search E) (env_parseUrl E) (env_encodeURIComponent E)
                      topic maxPerType")
        case (Inl e)
        with topic key have "tryBody E body = (sent1, Some e)"
          by (simp add: tryBody_def topic_def maxPerType_def sent1_def)
        with p1 have "\<exists>pre e. tryBody E body = (pre, Some e) \<and> list_all progress pre"
          by (intro exI conjI)
        then show ?thesis by (intro disjI2 disjI1)
      next
        case (Inr ds)
        show ?thesis
        proof (cases "ds = []")
          case True
          with topic key Inr have "tryBody E body =
              (sent1, Some (Error ''No sources were discovered for this topic.''))"
            by (simp add: tryBody_def topic_def maxPerType_def sent1_def)
          with p1 have "\<exists>pre e. tryBody E body = (pre, Some e) \<and> list_all progress pre"
          by (intro exI conjI)
        then show ?thesis by (intro disjI2 disjI1)
        next
          case ds: False
          define sent2 where "sent2 = sent1 @
            [EvDiscoveryComplete ds,
             EvPhase scraping (''Scraping '' @ showNat (length ds) @
               '' sources in parallel with TinyFish...'')] @
            scrapeEvents E ds"
          have p2: "list_all progress sent2"
            by (simp add: sent2_def sent1_def scrapeEvents_progress)
          show ?thesis
          proof (cases "scrapeAll E ds")
            case (Inl e)
            with topic key Inr ds have "tryBody E body = (sent2, Some e)"
              by (simp add: tryBody_def topic_def maxPerType_def sent1_def sent2_def)
            with p2 have "\<exists>pre e. tryBody E body = (pre, Some e) \<and> list_all progress pre"
              by (intro exI conjI)
            then show ?thesis by (intro disjI2 disjI1)
          next
            case results: (Inr results)
            show ?thesis
            proof (cases "successes results = []")
              case True
              with topic key Inr ds results have "tryBody E body =
                  (sent2, Some (Error ''Scraping finished, but no source returned usable content.''))"
                by (simp add: tryBody_def topic_def maxPerType_def sent1_def sent2_def)
              with p2 have "\<exists>pre e. tryBody E body = (pre, Some e) \<and> list_all progress pre"
              by (intro exI conjI)
            then show ?thesis by (intro disjI2 disjI1)
            next
              case False
              define pre where "pre = sent2 @
                [EvPhase synthesizing ''Synthesizing a single markdown skill guide...'']"
              have p3: "list_all progress pre" using p2 by (simp add: pre_def)
              from False topic key Inr ds results have "tryBody E body =
                  (pre @ synthesize E topic ds (successes results), None)"
                by (simp add: tryBody_def topic_def maxPerType_def sent1_def sent2_def pre_def)
              with p3 ds results False
              have "\<exists>pre topic ds results.
                  tryBody E body = (pre @ synthesize E topic ds (successes results), None) \<and>
                  list_all progress pre \<and> ds \<noteq> [] \<and> scrapeAll E ds = Inr results \<and>
                  successes results \<noteq> []"
                by (intro exI conjI)
              then show ?thesis by (intro disjI2)
            qed
          qed
        qed
      qed
    qed
  qed
qed

section \<open>Runs that complete, and terminal events\<close>

lemma guideChunks_append: "guideChunks (a @ b) = guideChunks a @ guideChunks b"
  by (induction a rule: guideChunks.induct) simp_all

lemma guideChunks_progress: "list_all progress a \<Longrightarrow> guideChunks a = []"
  by (induction a rule: guideChunks.induct) simp_all

lemma guideChunks_map: "guideChunks (map EvGuideChunk cs) = cs"
  by (induction cs) simp_all

lemma progress_not_terminal: "progress ev \<Longrightarrow> \<not> terminal ev"
  by (cases ev) simp_all

lemma progress_not_complete: "list_all progress pre \<Longrightarrow> EvComplete g ds st \<notin> set pre"
proof
  assume "list_all progress pre" and "EvComplete g ds st \<in> set pre"
  then have "progress (EvComplete g ds st)" unfolding list_all_iff by (rule bspec)
  then show False by simp
qed

lemma POST_shape:
  "(\<exists>m. POST E body = [EvError m] \<and> snd (tryBody E body) = None) \<or>
   (\<exists>pre e. POST E body = pre @ [EvPhase error (message_of e), EvError (message_of e)] \<and>
      list_all progress pre \<and> snd (tryBody E body) = Some e) \<or>
   (\<exists>pre topic ds results.
      POST E body = pre @ synthesize E topic ds (successes results) \<and>
      snd (tryBody E body) = None \<and>
      list_all progress pre \<and> ds \<noteq> [] \<and> scrapeAll E ds = Inr results \<and>
      successes results \<noteq> [])"
proof -
  consider
    (v) m where "tryBody E body = ([EvError m], None)"
  | (f) pre e where "tryBody E body = (pre, Some e)" "list_all progress pre"
  | (s) pre topic ds results where
      "tryBody E body = (pre @ synthesize E topic ds (successes results), None)"
      "list_all progress pre" "ds \<noteq> []" "scrapeAll E ds = Inr results"
      "successes results \<noteq> []"
    using tryBody_shape [of E body] by (elim disjE exE conjE) metis+
  then show ?thesis
  proof cases
    case v
    then have "POST E body = [EvError m] \<and> snd (tryBody E body) = None"
      by (simp add: POST_def)
    then have "\<exists>m. POST E body = [EvError m] \<and> snd (tryBody E body) = None" by (rule exI)
    then show ?thesis by (rule disjI1)
  next
    case f
    then have "POST E body = pre @ [EvPhase error (message_of e), EvError (message_of e)] \<and>
        list_all progress pre \<and> snd (tryBody E body) = Some e"
      by (simp add: POST_def fatal_def)
    then have "\<exists>pre e. POST E body = pre @ [EvPhase error (message_of e), EvError (message_of e)] \<and>
        list_all progress pre \<and> snd (tryBody E body) = Some e"
      by (intro exI)
    then show ?thesis by (intro disjI2 disjI1)
  next
    case s
    then have "POST E body = pre @ synthesize E topic ds (successes results) \<and>
        snd (tryBody E body) = None \<and>
        list_all progress pre \<and> ds \<noteq> [] \<and> scrapeAll E ds = Inr results \<and>
        successes results \<noteq> []"
      by (simp add: POST_def)
    then have "\<exists>pre topic ds results.
        POST E body = pre @ synthesize E topic ds (successes results) \<and>
        snd (tryBody E body) = None \<and>
        list_all progress pre \<and> ds \<noteq> [] \<and> scrapeAll E ds = Inr results \<and>
        successes results \<noteq> []"
      by (intro exI)
    then show ?thesis by (intro disjI2)
  qed
qed

text \<open>The events of a run that completes.\<close>

lemma complete_run:
  assumes "EvComplete g ds st \<in> set (POST E body)"
  shows "\<exists>pre topic results.
      POST E body = pre @ map EvGuideChunk (sectionChunks E topic (successes results)) @
        [EvPhase complete ''Guide generation complete.'', EvComplete g ds st] \<and>
      list_all progress pre \<and>
      g = trim (concat (sectionChunks E topic (successes results))) \<and>
      generatedWords st = countWords g \<and>
      scrapeAll E ds = Inr results \<and> successes results \<noteq> []"
proof -
  consider
    (v) m where "POST E body = [EvError m]"
  | (f) pre e where "POST E body = pre @ [EvPhase error (message_of e), EvError (message_of e)]"
      "list_all progress pre"
  | (s) pre topic ds' results where
      "POST E body = pre @ synthesize E topic ds' (successes results)"
      "list_all progress pre" "scrapeAll E ds' = Inr results" "successes results \<noteq> []"
    using POST_shape [of E body] by (elim disjE exE conjE) metis+
  then show ?thesis
  proof cases
    case v
    with assms show ?thesis by simp
  next
    case f
    with assms have "EvComplete g ds st \<in> set pre" by simp
    with progress_not_complete [OF f(2)] show ?thesis by simp
  next
    case s
    let ?cs = "sectionChunks E topic (successes results)"
    let ?st = "\<lparr>sourceCount = length ds', successCount = length (successes results),
         generatedWords = countWords (trim (concat ?cs))\<rparr>"
    let ?done = "EvPhase complete ''Guide generation complete.''"
    have post: "POST E body = pre @ map EvGuideChunk ?cs @
        [?done, EvComplete (trim (concat ?cs)) ds' ?st]"
      unfolding s(1) synthesize_eq ..
    have "EvComplete g ds st \<notin> set pre" by (rule progress_not_complete [OF s(2)])
    moreover have "EvComplete g ds st \<notin> set (map EvGuideChunk ?cs)" by auto
    moreover have "EvComplete g ds st \<noteq> ?done" by simp
    ultimately have "EvComplete g ds st = EvComplete (trim (concat ?cs)) ds' ?st"
      using assms unfolding post by (simp del: map_map)
    then have g: "g = trim (concat ?cs)" and d: "ds = ds'" and t: "st = ?st" by simp_all
    have "POST E body = pre @ map EvGuideChunk ?cs @ [?done, EvComplete g ds st] \<and>
        list_all progress pre \<and> g = trim (concat ?cs) \<and>
        generatedWords st = countWords g \<and>
        scrapeAll E ds = Inr results \<and> successes results \<noteq> []"
      using post s(2,3,4) g d t by simp
    then show ?thesis by (intro exI)
  qed
qed

lemma complete_run_chunks:
  assumes "EvComplete g ds st \<in> set (POST E body)"
  shows "g = trim (concat (guideChunks (POST E body))) \<and> generatedWords st = countWords g"
proof -
  from complete_run [OF assms] obtain pre topic results where
    post: "POST E body = pre @ map EvGuideChunk (sectionChunks E topic (successes results)) @
        [EvPhase complete ''Guide generation complete.'', EvComplete g ds st]"
    and p: "list_all progress pre"
    and g: "g = trim (concat (sectionChunks E topic (successes results)))"
    and w: "generatedWords st = countWords g"
    by (elim exE conjE)
  have "guideChunks (POST E body) = sectionChunks E topic (successes results)"
    unfolding post guideChunks_append guideChunks_map guideChunks_progress [OF p] by simp
  with g w show ?thesis by simp
qed

lemma length_sections:
  "length (sections (buildGuideMarkdown f now topic results)) = 6"
  by (simp add: buildGuideMarkdown_def Let_def)

lemma concat_chunks_last:
  assumes "secs \<noteq> []"
  shows "concat (map (\<lambda>s. s @ [NL]) secs) \<noteq> [] \<and>
         last (concat (map (\<lambda>s. s @ [NL]) secs)) = NL"
proof -
  from assms obtain ys y where "secs = ys @ [y]" by (cases secs rule: rev_cases) auto
  then have "concat (map (\<lambda>s. s @ [NL]) secs) = (concat (map (\<lambda>s. s @ [NL]) ys) @ y) @ [NL]"
    by simp
  then show ?thesis by (simp only: last_snoc) simp
qed

lemma isWhiteSpace_NL: "isWhiteSpace NL"
  by (simp add: isWhiteSpace_def NL_def)

lemma sectionChunks_not_trimmed:
  "concat (sectionChunks E topic succ) \<noteq> trim (concat (sectionChunks E topic succ))"
proof -
  let ?secs = "sections (buildGuideMarkdown (env_formatDate E) (env_now E) topic succ)"
  have "length ?secs = 6" by (rule length_sections)
  then have "?secs \<noteq> []" by auto
  from concat_chunks_last [OF this]
  have ne: "concat (sectionChunks E topic succ) \<noteq> []"
    and l: "last (concat (sectionChunks E topic succ)) = NL"
    unfolding sectionChunks_def by simp_all
  from l have "isWhiteSpace (last (concat (sectionChunks E topic succ)))"
    by (simp only: isWhiteSpace_NL)
  with ne have "trim (concat (sectionChunks E topic succ)) \<noteq> concat (sectionChunks E topic succ)"
    by (rule trim_neq_trailing_ws)
  then show ?thesis by (rule not_sym)
qed

lemma complete_run_chunks_differ:
  assumes "EvComplete g ds st \<in> set (POST E body)"
  shows "concat (guideChunks (POST E body)) \<noteq> g"
proof -
  from complete_run [OF assms] obtain pre topic results where
    post: "POST E body = pre @ map EvGuideChunk (sectionChunks E topic (successes results)) @
        [EvPhase complete ''Guide generation complete.'', EvComplete g ds st]"
    and p: "list_all progress pre"
    and g: "g = trim (concat (sectionChunks E topic (successes results)))"
    by (elim exE conjE)
  have "guideChunks (POST E body) = sectionChunks E topic (successes results)"
    unfolding post guideChunks_append guideChunks_map guideChunks_progress [OF p] by simp
  with g sectionChunks_not_trimmed [of E topic "successes results"] show ?thesis by simp
qed

lemma POST_snoc:
  "\<exists>xs t. POST E body = xs @ [t] \<and> list_all (\<lambda>ev. \<not> terminal ev) xs"
proof -
  consider
    (v) m where "POST E body = [EvError m]"
  | (f) pre e where "POST E body = pre @ [EvPhase error (message_of e), EvError (message_of e)]"
      "list_all progress pre"
  | (s) pre topic ds' results where
      "POST E body = pre @ synthesize E topic ds' (successes results)"
      "list_all progress pre"
    using POST_shape [of E body] by (elim disjE exE conjE) metis+
  then show ?thesis
  proof cases
    case v
    then have "POST E body = [] @ [EvError m] \<and> list_all (\<lambda>ev. \<not> terminal ev) []" by simp
    then show ?thesis by (intro exI)
  next
    case f
    have "list_all (\<lambda>ev. \<not> terminal ev) pre"
      using f(2) progress_not_terminal unfolding list_all_iff by blast
    then have "POST E body = (pre @ [EvPhase error (message_of e)]) @ [EvError (message_of e)] \<and>
        list_all (\<lambda>ev. \<not> terminal ev) (pre @ [EvPhase error (message_of e)])"
      using f(1) by simp
    then show ?thesis by (intro exI)
  next
    case s
    let ?cs = "sectionChunks E topic (successes results)"
    let ?done = "EvPhase complete ''Guide generation complete.''"
    have np: "list_all (\<lambda>ev. \<not> terminal ev) pre"
      using s(2) progress_not_terminal unfolding list_all_iff by blast
    have nc: "list_all (\<lambda>ev. \<not> terminal ev) (map EvGuideChunk ?cs)"
      by (simp add: list_all_iff)
    have nd: "\<not> terminal ?done" by simp
    obtain t where post: "POST E body = (pre @ map EvGuideChunk ?cs @ [?done]) @ [t]"
      unfolding s(1) synthesize_eq by simp
    have "list_all (\<lambda>ev. \<not> terminal ev) (pre @ map EvGuideChunk ?cs @ [?done])"
      using np nc nd by (simp del: map_map)
    with post have "POST E body = (pre @ map EvGuideChunk ?cs @ [?done]) @ [t] \<and>
        list_all (\<lambda>ev. \<not> terminal ev) (pre @ map EvGuideChunk ?cs @ [?done])"
      by (rule conjI)
    then show ?thesis by (intro exI)
  qed
qed

lemma terminal_only_last:
  assumes "i < j" and "j < length (written failsAt (POST E body))"
  shows "\<not> terminal (written failsAt (POST E body) ! i)"
proof -
  from POST_snoc [of E body] obtain xs t where
    post: "POST E body = xs @ [t]" and nt: "list_all (\<lambda>ev. \<not> terminal ev) xs"
    by (elim exE conjE)
  have len: "length (written failsAt (POST E body)) \<le> length (POST E body)"
    by (cases failsAt) (simp_all add: written_def)
  with assms have i: "i < length xs" unfolding post by simp
  have "written failsAt (POST E body) ! i = POST E body ! i"
    using assms by (cases failsAt) (simp_all add: written_def)
  also have "\<dots> = xs ! i" using i unfolding post by (simp add: nth_append)
  finally show ?thesis using nt i by (simp add: list_all_length)
qed


section \<open>Outcomes of the tasks and rendered sections\<close>

lemma scrapeTask_outcome:
  "\<exists>r. snd (scrapeTask E source) = Inr r \<and> resultSource r = source"
proof -
  obtain cbs r where run: "runTinyFishTask (env_JSON_parse E) (env_agent E source) = (cbs, r)"
    by (cases "runTinyFishTask (env_JSON_parse E) (env_agent E source)") auto
  show ?thesis
  proof (cases "\<not> tf_success r \<or> tf_result r = JUndefined")
    case True
    with run show ?thesis by (simp add: scrapeTask_def Let_def)
  next
    case False
    then have "tf_result r \<noteq> JUndefined" by simp
    then obtain e where
      "normalizeExtraction (env_JSON_parse E) (env_render E) (tf_result r) source = Inr e"
      using normalizeExtraction_returns by blast
    with run False show ?thesis by (simp add: scrapeTask_def Let_def)
  qed
qed

lemma allSettled_map:
  assumes "\<forall>x \<in> set xs. \<exists>r. f x = Inr r"
  shows "allSettled (map f xs) = Inr (map (\<lambda>x. projr (f x)) xs)"
  using assms
proof (induction xs)
  case Nil
  then show ?case by simp
next
  case (Cons x xs)
  then obtain r where "f x = Inr r" by auto
  with Cons show ?case by simp
qed

lemma scrapeAll_eq:
  "scrapeAll E ds = Inr (map (\<lambda>source. projr (snd (scrapeTask E source))) ds)"
  unfolding scrapeAll_def
proof (rule allSettled_map, rule ballI)
  fix x
  from scrapeTask_outcome [of E x] obtain r where "snd (scrapeTask E x) = Inr r"
    by (elim exE conjE)
  then show "\<exists>r. snd (scrapeTask E x) = Inr r" by (rule exI)
qed










section \<open>Discovery returns between one source and four times the quota\<close>

lemma selectRanked_selection:
  assumes "selection maxPerType (selected, seen, False)"
  shows "selection maxPerType (selectRanked parseUrl type' query maxPerType ranked selected seen)"
  using assms
proof (induction ranked arbitrary: selected seen)
  case Nil
  then show ?case by simp
next
  case (Cons entry ranked)
  let ?url = "normalizeUrl parseUrl (sr_url (fst entry))"
  show ?case
  proof (cases "?url \<in> set seen")
    case True
    with Cons show ?thesis by (simp add: Let_def)
  next
    case False
    let ?src = "\<lparr>ds_id = createSourceId parseUrl type' ?url (length selected),
        ds_type = type', ds_title = trim (sr_title (fst entry)), ds_url = ?url,
        ds_reason = cleanSnippet
          (if sr_description (fst entry) \<noteq> [] then sr_description (fst entry)
           else sr_rawDescription (fst entry)),
        ds_query = query\<rparr>"
    from Cons.prems have inv: "set seen = ds_url ` set selected"
      "distinct (map ds_url selected)" "length selected < maxPerType"
      by (simp_all add: selection_def)
    show ?thesis
    proof (cases "maxPerType \<le> Suc (length selected)")
      case True
      with inv have "maxPerType = Suc (length selected)" by simp
      with False inv True show ?thesis by (simp add: Let_def selection_def)
    next
      case nf: False
      have "selection maxPerType (selected @ [?src], ?url # seen, False)"
        using inv False nf by (simp add: selection_def)
      from Cons.IH [OF this] False nf show ?thesis by (simp add: Let_def)
    qed
  qed
qed

lemma queryLoop_selection:
  assumes "selection maxPerType (selected, seen, False)"
  shows "selection maxPerType
           (queryLoop search parseUrl type' topicTokens maxPerType queries selected seen)"
  using assms
proof (induction queries arbitrary: selected seen)
  case Nil
  then show ?case by simp
next
  case (Cons query queries)
  show ?case
  proof (cases "search query")
    case None
    with Cons show ?thesis by simp
  next
    case (Some results)
    obtain sel' seen' filled where
      sr: "selectRanked parseUrl type' query maxPerType (rankResults type' topicTokens results)
             selected seen = (sel', seen', filled)"
      using prod_cases3 by blast
    have s: "selection maxPerType (sel', seen', filled)"
      using selectRanked_selection [OF Cons.prems, where parseUrl = parseUrl and type' = type'
          and query = query and ranked = "rankResults type' topicTokens results"] sr by simp
    show ?thesis
    proof (cases filled)
      case True
      with Some sr s show ?thesis by simp
    next
      case False
      with s have "selection maxPerType (sel', seen', False)" by simp
      from Cons.IH [OF this] Some sr False show ?thesis by simp
    qed
  qed
qed

lemma fallbackLoop_extends:
  "\<exists>ext. fallbackLoop maxPerType seen fallbacks selected = selected @ ext"
proof (induction fallbacks arbitrary: selected)
  case Nil
  then show ?case by simp
next
  case (Cons fallback fallbacks)
  let ?sel = "if ds_url fallback \<notin> set seen then selected @ [fallback] else selected"
  obtain e1 where e1: "?sel = selected @ e1" by (cases "ds_url fallback \<in> set seen") auto
  from Cons.IH [of ?sel] obtain e2 where
    "fallbackLoop maxPerType seen fallbacks ?sel = ?sel @ e2" by blast
  with e1 have "fallbackLoop maxPerType seen fallbacks ?sel = selected @ (e1 @ e2)" by simp
  moreover have "fallbackLoop maxPerType seen (fallback # fallbacks) selected = ?sel \<or>
      fallbackLoop maxPerType seen (fallback # fallbacks) selected =
        fallbackLoop maxPerType seen fallbacks ?sel"
    by (simp add: Let_def)
  ultimately show ?case using e1 by metis
qed

lemma fallbackLoop_nonempty:
  assumes "fallbacks \<noteq> []" and "selected = [] \<longrightarrow> seen = []"
  shows "fallbackLoop maxPerType seen fallbacks selected \<noteq> []"
proof (cases "selected = []")
  case False
  with fallbackLoop_extends [of maxPerType seen fallbacks selected] show ?thesis by auto
next
  case True
  with assms(2) have seen: "seen = []" by simp
  from assms(1) obtain f fs where fb: "fallbacks = f # fs" by (cases fallbacks) auto
  show ?thesis
  proof (cases "maxPerType \<le> 1")
    case True
    with \<open>selected = []\<close> seen fb show ?thesis by (simp add: Let_def)
  next
    case False
    from fallbackLoop_extends [of maxPerType seen fs "[f]"] obtain ext where
      "fallbackLoop maxPerType seen fs [f] = [f] @ ext" by blast
    with \<open>selected = []\<close> seen fb False show ?thesis by (simp add: Let_def)
  qed
qed

lemma defaultFallbacks_nonempty:
  "defaultFallbacks parseUrl enc topic type' = Inr fallbacks \<Longrightarrow> fallbacks \<noteq> []"
  by (cases type') (auto simp: defaultFallbacks_def split: option.splits)

lemma defaultFallbacks_throws:
  "defaultFallbacks parseUrl enc topic type' = Inl e \<Longrightarrow> enc topic = None"
  by (auto simp: defaultFallbacks_def split: option.splits)

lemma discoverByType_bounds:
  assumes "1 \<le> maxPerType"
  shows "case discoverByType search parseUrl enc topic type' maxPerType of
           Inl e \<Rightarrow> enc topic = None
         | Inr selected \<Rightarrow> 1 \<le> length selected \<and> length selected \<le> maxPerType"
proof -
  let ?queries = "map (\<lambda>template. replaceAll template ''{topic}'' topic) (SOURCE_QUERIES type')"
  obtain selected seen filled where
    ql: "queryLoop search parseUrl type' (tokenizeTopic topic) maxPerType ?queries [] [] =
           (selected, seen, filled)"
    using prod_cases3 by blast
  have "selection maxPerType ([], [], False)" using assms by (simp add: selection_def)
  from queryLoop_selection [OF this, where search = search and parseUrl = parseUrl
      and type' = type' and topicTokens = "tokenizeTopic topic" and queries = ?queries] ql
  have s: "selection maxPerType (selected, seen, filled)" by simp
  show ?thesis
  proof (cases filled)
    case True
    with s have "length selected = maxPerType" by (simp add: selection_def)
    with ql True assms show ?thesis by (simp add: discoverByType_def Let_def)
  next
    case False
    with s have lt: "length selected < maxPerType" and seen: "set seen = ds_url ` set selected"
      by (simp_all add: selection_def)
    show ?thesis
    proof (cases "defaultFallbacks parseUrl enc topic type'")
      case (Inl e)
      then have "enc topic = None" by (rule defaultFallbacks_throws)
      with ql False lt Inl show ?thesis by (simp add: discoverByType_def Let_def)
    next
      case (Inr fallbacks)
      then have "fallbacks \<noteq> []" by (rule defaultFallbacks_nonempty)
      moreover have "selected = [] \<longrightarrow> seen = []" using seen by auto
      ultimately have "fallbackLoop maxPerType seen fallbacks selected \<noteq> []"
        by (rule fallbackLoop_nonempty)
      then have "1 \<le> length (take maxPerType (fallbackLoop maxPerType seen fallbacks selected))"
        using assms by (cases "fallbackLoop maxPerType seen fallbacks selected") simp_all
      with ql False lt Inr show ?thesis by (simp add: discoverByType_def Let_def)
    qed
  qed
qed

lemma allSettled_Inr:
  "allSettled rs = Inr vs \<Longrightarrow> rs = map Inr vs"
proof (induction rs arbitrary: vs)
  case Nil
  then show ?case by simp
next
  case (Cons r rs)
  then show ?case by (cases r) (auto split: sum.splits)
qed

lemma allSettled_Inl:
  "allSettled rs = Inl e \<Longrightarrow> Inl e \<in> set rs"
proof (induction rs)
  case Nil
  then show ?case by simp
next
  case (Cons r rs)
  then show ?case by (cases r) (auto split: sum.splits)
qed

lemma dedupeByUrl_length: "length (dedupeByUrl xs keys) \<le> length xs"
  by (induction xs arbitrary: keys) (auto simp: le_SucI)

lemma dedupeByUrl_nonempty: "xs \<noteq> [] \<Longrightarrow> dedupeByUrl xs [] \<noteq> []"
  by (cases xs) simp_all

lemma dedupeByUrl_urls: "ds_url ` set (dedupeByUrl xs keys) = ds_url ` set xs - set keys"
  by (induction xs arbitrary: keys) auto

lemma dedupeByUrl_distinct: "distinct (map ds_url (dedupeByUrl xs keys))"
proof (induction xs arbitrary: keys)
  case (Cons x xs)
  have "ds_url x \<notin> ds_url ` set (dedupeByUrl xs (ds_url x # keys))"
    by (simp add: dedupeByUrl_urls)
  with Cons show ?case by auto
qed simp

lemma length_concat_bound:
  assumes "\<And>r. r \<in> set rs \<Longrightarrow> 1 \<le> length r \<and> length r \<le> k"
  shows "length (concat rs) \<le> length rs * k"
  using assms
proof (induction rs)
  case Nil
  then show ?case by simp
next
  case (Cons r rs)
  have "length r \<le> k" using Cons.prems [of r] by simp
  moreover have "length (concat rs) \<le> length rs * k"
    using Cons.IH Cons.prems by simp
  ultimately show ?case by simp
qed

lemma discoverSources_bounds:
  "case discoverSources search parseUrl enc topic q of
     Inl e \<Rightarrow> enc topic = None
   | Inr ds \<Rightarrow> 1 \<le> length ds \<and> length ds \<le> 4 * nat (max 1 (min q 3)) \<and>
       distinct (map ds_url ds)"
proof -
  let ?limit = "nat (max 1 (min q 3))"
  let ?f = "\<lambda>type'. discoverByType search parseUrl enc topic type' ?limit"
  have lim: "1 \<le> ?limit" by simp
  show ?thesis
  proof (cases "allSettled (map ?f SOURCE_TYPES)")
    case (Inl e)
    then have "Inl e \<in> set (map ?f SOURCE_TYPES)" by (rule allSettled_Inl)
    then obtain type' where "?f type' = Inl e" by auto
    with discoverByType_bounds [OF lim, where search = search and parseUrl = parseUrl
        and enc = enc and topic = topic and type' = type']
    have "enc topic = None" by simp
    with Inl show ?thesis by (simp add: discoverSources_def Let_def)
  next
    case (Inr results)
    then have eq: "map ?f SOURCE_TYPES = map Inr results" by (rule allSettled_Inr)
    have "length (map ?f SOURCE_TYPES) = length (map Inr results :: (exn + DiscoveredSource list) list)"
      using eq by (rule arg_cong)
    then have len: "length results = 4" by (simp add: SOURCE_TYPES_def)
    have each: "1 \<le> length r \<and> length r \<le> ?limit" if "r \<in> set results" for r
    proof -
      from that obtain i where i: "i < length results" "results ! i = r"
        by (auto simp: in_set_conv_nth)
      have "map ?f SOURCE_TYPES ! i = map Inr results ! i"
        using eq by (rule arg_cong)
      moreover have "length SOURCE_TYPES = 4" by (simp add: SOURCE_TYPES_def)
      ultimately have "?f (SOURCE_TYPES ! i) = Inr r" using i len by (simp add: nth_map)
      with discoverByType_bounds [OF lim, where search = search and parseUrl = parseUrl
          and enc = enc and topic = topic and type' = "SOURCE_TYPES ! i"]
      show ?thesis by simp
    qed
    have "length (concat results) \<le> length results * ?limit"
      using each by (rule length_concat_bound)
    then have "length (concat results) \<le> 4 * ?limit" by (simp only: len)
    moreover have "concat results \<noteq> []"
    proof -
      from len obtain r where r: "r \<in> set results" by (cases results) auto
      with each [OF r] have "r \<noteq> []" by auto
      with r show ?thesis by (auto simp: concat_eq_Nil_conv)
    qed
    ultimately have "1 \<le> length (dedupeByUrl (concat results) []) \<and>
        length (dedupeByUrl (concat results) []) \<le> 4 * ?limit"
      using dedupeByUrl_length [of "concat results" "[]"]
        dedupeByUrl_nonempty [of "concat results"]
      by (cases "dedupeByUrl (concat results) []") simp_all
    with Inr show ?thesis by (simp add: discoverSources_def Let_def dedupeByUrl_distinct)
  qed
qed

section \<open>The sources a run announces\<close>








section \<open>Runs that reach synthesis\<close>




text \<open>A run with a topic and a key completes when the topic can be encoded and every task succeeds.\<close>

lemma run_completes:
  assumes topic: "body_topic body = Some t" "trim t \<noteq> []"
    and key: "present (env_apiKey E)"
    and enc: "env_encodeURIComponent E (trim t) \<noteq> None"
    and agent: "\<And>s. tf_success (snd (runTinyFishTask (env_JSON_parse E) (env_agent E s)))"
  shows "\<exists>g ds st. EvComplete g ds st \<in> set (POST E body)"
proof -
  define maxPerType where
    "maxPerType = (case body_maxPerType body of Some n \<Rightarrow> max 1 (min n 3) | None \<Rightarrow> (2::int))"
  obtain ds where disc: "discoverSources (env_search E) (env_parseUrl E)
      (env_encodeURIComponent E) (trim t) maxPerType = Inr ds" and ne: "ds \<noteq> []"
  proof (cases "discoverSources (env_search E) (env_parseUrl E)
      (env_encodeURIComponent E) (trim t) maxPerType")
    case (Inl e)
    with discoverSources_bounds [where search = "env_search E" and parseUrl = "env_parseUrl E"
        and enc = "env_encodeURIComponent E" and topic = "trim t" and q = maxPerType] enc
    show ?thesis by simp
  next
    case (Inr ds)
    with discoverSources_bounds [where search = "env_search E" and parseUrl = "env_parseUrl E"
        and enc = "env_encodeURIComponent E" and topic = "trim t" and q = maxPerType]
    have "ds \<noteq> []" by auto
    with Inr that show ?thesis by blast
  qed
  define results where "results = map (\<lambda>source. projr (snd (scrapeTask E source))) ds"
  have all: "scrapeAll E ds = Inr results" unfolding results_def by (rule scrapeAll_eq)
  from ne obtain d ds' where d: "ds = d # ds'" by (cases ds) auto
  from scrapeTask_outcome [of E d] obtain r where r: "snd (scrapeTask E d) = Inr r"
    by (elim exE conjE)
  have "\<not> (\<exists>f. snd (scrapeTask E d) = Inr (Failed f))"
    using scrapeTask_failed_iff [of E d] agent [of d] by simp
  with r obtain s where "r = Succeeded s" by (cases r) auto
  with r d have "successes results \<noteq> []" by (simp add: results_def)
  define pre where "pre =
       [EvPhase discovering
          ''Discovering relevant docs, GitHub, Stack Overflow, and blog sources...''] @
       [EvDiscoveryComplete ds,
        EvPhase scraping (''Scraping '' @ showNat (length ds) @
          '' sources in parallel with TinyFish...'')] @
       scrapeEvents E ds @
       [EvPhase synthesizing ''Synthesizing a single markdown skill guide...'']"
  from \<open>successes results \<noteq> []\<close> topic key disc ne all
  have "tryBody E body = (pre @ synthesize E (trim t) ds (successes results), None)"
    by (simp add: tryBody_def maxPerType_def pre_def)
  then have post: "POST E body = pre @ synthesize E (trim t) ds (successes results)"
    by (simp add: POST_def)
  let ?g = "trim (concat (sectionChunks E (trim t) (successes results)))"
  let ?st = "\<lparr>sourceCount = length ds, successCount = length (successes results),
      generatedWords = countWords ?g\<rparr>"
  have "EvComplete ?g ds ?st \<in> set (synthesize E (trim t) ds (successes results))"
    unfolding synthesize_eq by simp
  then obtain g st where
    "EvComplete g ds st \<in> set (synthesize E (trim t) ds (successes results))"
    by blast
  then have "EvComplete g ds st \<in> set (POST E body)" unfolding post by simp
  then show ?thesis by (intro exI)
qed

lemma sample_task_succeeds:
  "tf_success (snd (runTinyFishTask sampleParse completeResponse))"
  by code_simp

lemma sample_run_completes:
  "\<exists>g ds st. EvComplete g ds st \<in> set (POST sampleEnv sampleBody)"
proof (rule run_completes)
  show "body_topic sampleBody = Some ''Docker''" by (simp add: sampleBody_def)
  show "trim ''Docker'' \<noteq> []" by code_simp
  show "present (env_apiKey sampleEnv)" by (simp add: sampleEnv_def)
  show "env_encodeURIComponent sampleEnv (trim ''Docker'') \<noteq> None" by (simp add: sampleEnv_def)
  show "tf_success (snd (runTinyFishTask (env_JSON_parse sampleEnv) (env_agent sampleEnv s)))" for s
    using sample_task_succeeds by (simp add: sampleEnv_def)
qed


section \<open>The category of the discovered sources\<close>









section \<open>The earlier copy of the discovery module\<close>










section \<open>The guide, its chunks and its word count\<close>

lemma finalGuide_complete:
  assumes "EvComplete g ds st \<in> set (POST E body)"
  shows "finalGuide (POST E body) = Some g"
proof -
  from complete_run [OF assms] obtain pre topic results where
    post: "POST E body = pre @ map EvGuideChunk (sectionChunks E topic (successes results)) @
        [EvPhase complete ''Guide generation complete.'', EvComplete g ds st]"
    by (elim exE conjE)
  have "POST E body = (pre @ map EvGuideChunk (sectionChunks E topic (successes results)) @
        [EvPhase complete ''Guide generation complete.'']) @ [EvComplete g ds st]"
    unfolding post by simp
  then obtain xs where xs: "POST E body = xs @ [EvComplete g ds st]" by blast
  show ?thesis unfolding finalGuide_def xs by simp
qed

lemma sectionChunks_head:
  "\<exists>rest. concat (sectionChunks E topic succ) = CHR ''#'' # rest"
  by (simp add: sectionChunks_def buildGuideMarkdown_def guideHeader_def Let_def)

lemma chunks_guide_then_white_space:
  assumes "EvComplete g ds st \<in> set (POST E body)"
  shows "\<exists>w. w \<noteq> [] \<and> list_all isWhiteSpace w \<and> concat (guideChunks (POST E body)) = g @ w"
proof -
  let ?s = "concat (guideChunks (POST E body))"
  let ?w = "rev (takeWhile isWhiteSpace (rev (dropWhile isWhiteSpace ?s)))"
  from complete_run [OF assms] obtain pre topic results where
    post: "POST E body = pre @ map EvGuideChunk (sectionChunks E topic (successes results)) @
        [EvPhase complete ''Guide generation complete.'', EvComplete g ds st]"
    and p: "list_all progress pre"
    by (elim exE conjE)
  have chunks: "guideChunks (POST E body) = sectionChunks E topic (successes results)"
    unfolding post guideChunks_append guideChunks_map guideChunks_progress [OF p] by simp
  from sectionChunks_head [of E topic "successes results"] obtain rest where
    "?s = CHR ''#'' # rest" unfolding chunks by blast
  moreover have "\<not> isWhiteSpace (CHR ''#'')" by (simp add: isWhiteSpace_def)
  ultimately have d: "dropWhile isWhiteSpace ?s = ?s" by simp
  from complete_run_chunks [OF assms] have g: "g = trim ?s" by (rule conjunct1)
  from trim_decompose [of ?s] have eq: "?s = g @ ?w" unfolding d g [symmetric] .
  have ws: "list_all isWhiteSpace ?w"
    unfolding list_all_iff using set_takeWhileD by fastforce
  have "?w \<noteq> []"
  proof
    assume "?w = []"
    with eq have "?s = g" by simp
    with complete_run_chunks_differ [OF assms] show False by simp
  qed
  with ws eq show ?thesis by blast
qed

text \<open>
  Claim C3: in every run that sends a \<open>complete\<close> event, the \<open>generatedWords\<close> of its
  statistics is the number of maximal runs of characters other than white space in the
  trimmed concatenation, in the order sent, of the chunks of the \<open>guide_chunk\<close> events of
  the run, and it is \<open>countWords\<close> of the guide the same event carries.
\<close>

theorem generatedWords_counts_tokens_of_chunks:
  assumes "EvComplete g ds st \<in> set (POST E body)"
  shows "generatedWords st = length (tokens (trim (concat (guideChunks (POST E body))))) \<and>
         generatedWords st = countWords g"
  using complete_run_chunks [OF assms] by (simp add: countWords_tokens)

theorem generatedWords_counts_tokens_of_chunks_witness:
  "\<exists>g ds st. EvComplete g ds st \<in> set (POST sampleEnv sampleBody) \<and>
     generatedWords st =
       length (tokens (trim (concat (guideChunks (POST sampleEnv sampleBody))))) \<and>
     generatedWords st = countWords g"
proof -
  from sample_run_completes obtain g ds st where
    c: "EvComplete g ds st \<in> set (POST sampleEnv sampleBody)" by (elim exE)
  from c generatedWords_counts_tokens_of_chunks [OF c] have "EvComplete g ds st \<in> set (POST sampleEnv sampleBody) \<and>
     generatedWords st =
       length (tokens (trim (concat (guideChunks (POST sampleEnv sampleBody))))) \<and>
     generatedWords st = countWords g"
    by (rule conjI)
  then show ?thesis by (intro exI)
qed

text \<open>
  Claim C6, as stated, fails: every chunk the route sends is a section, which ends in a
  line feed, followed by another line feed, so the concatenation of the chunks ends in
  line feeds, and the guide of the \<open>complete\<close> event, which is trimmed, is not that
  concatenation. The sample run, in which the agent completes the one task, sends a
  \<open>complete\<close> event whose guide differs from the concatenation of its chunks.
\<close>

theorem sample_chunks_differ_from_guide:
  "finalGuide (POST sampleEnv sampleBody) \<noteq> None \<and>
   finalGuide (POST sampleEnv sampleBody) \<noteq>
     Some (concat (guideChunks (POST sampleEnv sampleBody)))"
proof -
  from sample_run_completes obtain g ds st where
    c: "EvComplete g ds st \<in> set (POST sampleEnv sampleBody)" by (elim exE)
  have f: "finalGuide (POST sampleEnv sampleBody) = Some g" using c by (rule finalGuide_complete)
  have "concat (guideChunks (POST sampleEnv sampleBody)) \<noteq> g"
    using c by (rule complete_run_chunks_differ)
  with f show ?thesis by simp
qed

text \<open>
  Claim C6, amended: in every run that sends a \<open>complete\<close> event, the guide of that event
  is the trimmed concatenation, in the order sent, of the chunks of the \<open>guide_chunk\<close>
  events, and the concatenation itself is the guide followed by a non-empty string of
  white space.
\<close>

theorem guide_is_trimmed_chunks:
  assumes "EvComplete g ds st \<in> set (POST E body)"
  shows "g = trim (concat (guideChunks (POST E body))) \<and>
         (\<exists>w. w \<noteq> [] \<and> list_all isWhiteSpace w \<and>
              concat (guideChunks (POST E body)) = g @ w)"
  using complete_run_chunks [OF assms] chunks_guide_then_white_space [OF assms] by simp

theorem guide_is_trimmed_chunks_witness:
  "\<exists>g ds st. EvComplete g ds st \<in> set (POST sampleEnv sampleBody) \<and>
     g = trim (concat (guideChunks (POST sampleEnv sampleBody))) \<and>
     (\<exists>w. w \<noteq> [] \<and> list_all isWhiteSpace w \<and>
          concat (guideChunks (POST sampleEnv sampleBody)) = g @ w)"
proof -
  from sample_run_completes obtain g ds st where
    c: "EvComplete g ds st \<in> set (POST sampleEnv sampleBody)" by (elim exE)
  from c guide_is_trimmed_chunks [OF c] have "EvComplete g ds st \<in> set (POST sampleEnv sampleBody) \<and>
     g = trim (concat (guideChunks (POST sampleEnv sampleBody))) \<and>
     (\<exists>w. w \<noteq> [] \<and> list_all isWhiteSpace w \<and>
          concat (guideChunks (POST sampleEnv sampleBody)) = g @ w)"
    by (rule conjI)
  then show ?thesis by (intro exI)
qed

section \<open>The sections of the guide\<close>

text \<open>
  Claim C8: \<open>buildGuideMarkdown\<close> reads the clock only in the header. For every topic,
  every list of successes, every formatter of dates and any two values of \<open>now\<close>, the
  sections after the header are the same; the header is the same text around the formatted
  date; and when the two dates are formatted alike (in particular when \<open>now\<close> is the same)
  the two results are identical, sections and markdown.
\<close>

theorem buildGuideMarkdown_deterministic_modulo_clock:
  "tl (sections (buildGuideMarkdown f now1 topic results)) =
     tl (sections (buildGuideMarkdown f now2 topic results)) \<and>
   hd (sections (buildGuideMarkdown f now1 topic results)) =
     (''# '' @ topic @ '' Skill Guide'' @ [NL, NL] @ ''Generated: '') @ f now1 @
     ([NL] @ ''Sources scraped successfully: '' @ showNat (length results) @ [NL, NL]) \<and>
   hd (sections (buildGuideMarkdown f now2 topic results)) =
     (''# '' @ topic @ '' Skill Guide'' @ [NL, NL] @ ''Generated: '') @ f now2 @
     ([NL] @ ''Sources scraped successfully: '' @ showNat (length results) @ [NL, NL]) \<and>
   (f now1 = f now2 \<longrightarrow>
      buildGuideMarkdown f now1 topic results = buildGuideMarkdown f now2 topic results)"
  by (simp add: buildGuideMarkdown_def guideHeader_def Let_def)

theorem buildGuideMarkdown_deterministic_modulo_clock_witness:
  "take 10 ''2026-01-01T00:00:00.000Z'' = take 10 ''2026-01-01T09:30:00.000Z'' \<and>
   buildGuideMarkdown (take 10) ''2026-01-01T00:00:00.000Z'' ''Docker'' [emptySuccess] =
   buildGuideMarkdown (take 10) ''2026-01-01T09:30:00.000Z'' ''Docker'' [emptySuccess]"
proof -
  have h: "take 10 ''2026-01-01T00:00:00.000Z'' = take 10 ''2026-01-01T09:30:00.000Z''"
    by simp
  have "take 10 ''2026-01-01T00:00:00.000Z'' = take 10 ''2026-01-01T09:30:00.000Z'' \<longrightarrow>
      buildGuideMarkdown (take 10) ''2026-01-01T00:00:00.000Z'' ''Docker'' [emptySuccess] =
      buildGuideMarkdown (take 10) ''2026-01-01T09:30:00.000Z'' ''Docker'' [emptySuccess]"
    using buildGuideMarkdown_deterministic_modulo_clock [of "take 10" "''2026-01-01T00:00:00.000Z''" "''Docker''" "[emptySuccess]"
        "''2026-01-01T09:30:00.000Z''"]
    by (rule conjunct2 [THEN conjunct2, THEN conjunct2])
  then have "buildGuideMarkdown (take 10) ''2026-01-01T00:00:00.000Z'' ''Docker'' [emptySuccess] =
      buildGuideMarkdown (take 10) ''2026-01-01T09:30:00.000Z'' ''Docker'' [emptySuccess]"
    using h by (rule mp)
  with h show ?thesis by (rule conjI)
qed






section \<open>One outcome for each source, in order\<close>

lemma scrapeTask_schedule:
  "scrapeTask (E\<lparr>env_schedule := schedule\<rparr>) source = scrapeTask E source"
proof -
  have "env_JSON_parse (E\<lparr>env_schedule := schedule\<rparr>) = env_JSON_parse E"
    and "env_render (E\<lparr>env_schedule := schedule\<rparr>) = env_render E"
    and "env_agent (E\<lparr>env_schedule := schedule\<rparr>) = env_agent E"
    by simp_all
  then show ?thesis unfolding scrapeTask_def by (simp only:)
qed

lemma scrapeAll_schedule:
  "scrapeAll (E\<lparr>env_schedule := schedule\<rparr>) ds = scrapeAll E ds"
  by (simp add: scrapeAll_def scrapeTask_schedule)

lemma github_task_fails: "failed (projr (snd (scrapeTask mixedEnv githubSource)))"
  by code_simp

lemma docs_task_succeeds: "\<not> failed (projr (snd (scrapeTask mixedEnv sampleSource)))"
  by code_simp

text \<open>
  Claim C4: for every list of discovered sources, the scraping step returns a list of
  outcomes, one for each source: the list has the length of the list of sources, the
  outcome at each index is about the source at that index, and it is the outcome of that
  source's own task, whatever the other tasks do; and the list does not depend on the
  order in which the tasks complete.
\<close>

theorem scrapeAll_one_outcome_per_source:
  "\<exists>results. scrapeAll E ds = Inr results \<and>
     length results = length ds \<and>
     map resultSource results = ds \<and>
     (\<forall>i < length ds. snd (scrapeTask E (ds ! i)) = Inr (results ! i)) \<and>
     (\<forall>schedule. scrapeAll (E\<lparr>env_schedule := schedule\<rparr>) ds = Inr results)"
proof -
  define outcome where "outcome = (\<lambda>source. projr (snd (scrapeTask E source)))"
  have out: "snd (scrapeTask E source) = Inr (outcome source)"
    and src: "resultSource (outcome source) = source" for source
    using scrapeTask_outcome [of E source] by (auto simp: outcome_def)
  have all: "scrapeAll E ds = Inr (map outcome ds)"
    unfolding outcome_def by (rule scrapeAll_eq)
  have "map resultSource (map outcome ds) = ds"
    by (simp add: src comp_def)
  moreover have "\<forall>i < length ds. snd (scrapeTask E (ds ! i)) = Inr (map outcome ds ! i)"
    by (simp add: out)
  moreover have "\<forall>schedule. scrapeAll (E\<lparr>env_schedule := schedule\<rparr>) ds = Inr (map outcome ds)"
    by (simp only: scrapeAll_schedule all simp_thms)
  ultimately have "scrapeAll E ds = Inr (map outcome ds) \<and>
      length (map outcome ds) = length ds \<and>
      map resultSource (map outcome ds) = ds \<and>
      (\<forall>i < length ds. snd (scrapeTask E (ds ! i)) = Inr (map outcome ds ! i)) \<and>
      (\<forall>schedule. scrapeAll (E\<lparr>env_schedule := schedule\<rparr>) ds = Inr (map outcome ds))"
    using all by simp
  then show ?thesis by (rule exI)
qed

theorem scrapeAll_one_outcome_per_source_witness:
  "\<exists>results. scrapeAll mixedEnv [githubSource, sampleSource] = Inr results \<and>
     length results = 2 \<and>
     map resultSource results = [githubSource, sampleSource] \<and>
     failed (results ! 0) \<and> \<not> failed (results ! 1)"
proof -
  from scrapeAll_one_outcome_per_source [of mixedEnv "[githubSource, sampleSource]"] obtain results where
    all: "scrapeAll mixedEnv [githubSource, sampleSource] = Inr results"
    and len: "length results = length [githubSource, sampleSource]"
    and srcs: "map resultSource results = [githubSource, sampleSource]"
    and each: "\<forall>i < length [githubSource, sampleSource].
        snd (scrapeTask mixedEnv ([githubSource, sampleSource] ! i)) = Inr (results ! i)"
    by (elim exE conjE)
  from each have "snd (scrapeTask mixedEnv githubSource) = Inr (results ! 0)" by auto
  with github_task_fails have f0: "failed (results ! 0)" by simp
  from each have "snd (scrapeTask mixedEnv ([githubSource, sampleSource] ! 1)) = Inr (results ! 1)"
    by (elim allE [of _ 1]) simp
  then have "snd (scrapeTask mixedEnv sampleSource) = Inr (results ! 1)" by simp
  with docs_task_succeeds have f1: "\<not> failed (results ! 1)" by simp
  from len have len2: "length results = 2" by simp
  from all len2 srcs f0 f1 show ?thesis by (intro exI conjI)
qed

section \<open>Terminal events\<close>

lemma successes_all_failed: "\<forall>r \<in> set rs. failed r \<Longrightarrow> successes rs = []"
  by (induction rs rule: successes.induct) auto

text \<open>A run with a topic and a key in which every task fails ends in the \<open>catch\<close>.\<close>

lemma all_tasks_fail_fatal:
  assumes topic: "body_topic body = Some t" "trim t \<noteq> []"
    and key: "present (env_apiKey E)"
    and enc: "env_encodeURIComponent E (trim t) \<noteq> None"
    and agent: "\<And>s. \<not> tf_success (snd (runTinyFishTask (env_JSON_parse E) (env_agent E s)))"
  shows "snd (tryBody E body) =
           Some (Error ''Scraping finished, but no source returned usable content.'')"
proof -
  define maxPerType where
    "maxPerType = (case body_maxPerType body of Some n \<Rightarrow> max 1 (min n 3) | None \<Rightarrow> (2::int))"
  obtain ds where disc: "discoverSources (env_search E) (env_parseUrl E)
      (env_encodeURIComponent E) (trim t) maxPerType = Inr ds" and ne: "ds \<noteq> []"
  proof (cases "discoverSources (env_search E) (env_parseUrl E)
      (env_encodeURIComponent E) (trim t) maxPerType")
    case (Inl e)
    with discoverSources_bounds [where search = "env_search E" and parseUrl = "env_parseUrl E"
        and enc = "env_encodeURIComponent E" and topic = "trim t" and q = maxPerType] enc
    show ?thesis by simp
  next
    case (Inr ds)
    with discoverSources_bounds [where search = "env_search E" and parseUrl = "env_parseUrl E"
        and enc = "env_encodeURIComponent E" and topic = "trim t" and q = maxPerType]
    have "ds \<noteq> []" by auto
    with Inr that show ?thesis by blast
  qed
  define results where "results = map (\<lambda>source. projr (snd (scrapeTask E source))) ds"
  have all: "scrapeAll E ds = Inr results" unfolding results_def by (rule scrapeAll_eq)
  have "failed (projr (snd (scrapeTask E source)))" for source
  proof -
    from scrapeTask_failed_iff [of E source] agent [of source]
    obtain f where "snd (scrapeTask E source) = Inr (Failed f)" by blast
    then show ?thesis by simp
  qed
  then have "\<forall>r \<in> set results. failed r" by (auto simp: results_def)
  then have "successes results = []" by (rule successes_all_failed)
  with topic key disc ne all show ?thesis
    by (simp add: tryBody_def maxPerType_def)
qed

lemma unreachable_task_fails:
  "\<not> tf_success (snd (runTinyFishTask sampleParse (FetchRejects (Error ''fetch failed''))))"
  by (simp add: runTinyFishTask_def caught_def)

lemma unreachable_run_fatal:
  "snd (tryBody unreachableEnv sampleBody) =
     Some (Error ''Scraping finished, but no source returned usable content.'')"
proof (rule all_tasks_fail_fatal)
  show "body_topic sampleBody = Some ''Docker''" by (simp add: sampleBody_def)
  show "trim ''Docker'' \<noteq> []" by code_simp
  show "present (env_apiKey unreachableEnv)" by (simp add: unreachableEnv_def sampleEnv_def)
  show "env_encodeURIComponent unreachableEnv (trim ''Docker'') \<noteq> None"
    by (simp add: unreachableEnv_def sampleEnv_def)
  show "\<not> tf_success (snd (runTinyFishTask (env_JSON_parse unreachableEnv)
      (env_agent unreachableEnv s)))" for s
    using unreachable_task_fails by (simp add: unreachableEnv_def sampleEnv_def)
qed

text \<open>
  Claim C7: when the body of the run throws, the stream ends with a \<open>phase\<close> event of
  phase \<open>error\<close> followed by an \<open>error\<close> event, both with the message of the exception; and
  in every run, whether all writes succeed or the writes fail from some event on, no
  \<open>complete\<close> or \<open>error\<close> event is followed by another event: in particular no \<open>complete\<close>
  follows an \<open>error\<close>, and a run has at most one of the two.
\<close>

theorem fatal_run_ends_in_error:
  "(snd (tryBody E body) = Some e \<longrightarrow>
      (\<exists>pre. POST E body = pre @ [EvPhase error (message_of e), EvError (message_of e)])) \<and>
   (\<forall>i j. i < j \<and> j < length (written failsAt (POST E body)) \<longrightarrow>
      \<not> terminal (written failsAt (POST E body) ! i))"
proof (intro conjI impI allI)
  assume "snd (tryBody E body) = Some e"
  then obtain sent where "tryBody E body = (sent, Some e)" by (cases "tryBody E body") simp
  then have "POST E body = sent @ [EvPhase error (message_of e), EvError (message_of e)]"
    by (simp add: POST_def fatal_def)
  then show "\<exists>pre. POST E body = pre @ [EvPhase error (message_of e), EvError (message_of e)]"
    by (rule exI)
next
  fix i j
  assume "i < j \<and> j < length (written failsAt (POST E body))"
  then show "\<not> terminal (written failsAt (POST E body) ! i)"
    using terminal_only_last by blast
qed

theorem fatal_run_ends_in_error_witness:
  "snd (tryBody unreachableEnv sampleBody) =
     Some (Error ''Scraping finished, but no source returned usable content.'') \<and>
   (\<exists>pre. POST unreachableEnv sampleBody = pre @
      [EvPhase error ''Scraping finished, but no source returned usable content.'',
       EvError ''Scraping finished, but no source returned usable content.'']) \<and>
   \<not> terminal (written None (POST unreachableEnv sampleBody) ! 0)"
proof -
  let ?e = "Error ''Scraping finished, but no source returned usable content.''"
  note t = fatal_run_ends_in_error [of unreachableEnv sampleBody ?e None]
  from t have "snd (tryBody unreachableEnv sampleBody) = Some ?e \<longrightarrow>
      (\<exists>pre. POST unreachableEnv sampleBody = pre @
         [EvPhase error (message_of ?e), EvError (message_of ?e)])"
    by (rule conjunct1)
  then have ex: "\<exists>pre. POST unreachableEnv sampleBody = pre @
      [EvPhase error (message_of ?e), EvError (message_of ?e)]"
    using unreachable_run_fatal by (rule mp)
  then obtain pre where post: "POST unreachableEnv sampleBody = pre @
      [EvPhase error (message_of ?e), EvError (message_of ?e)]" by (elim exE)
  have "length (POST unreachableEnv sampleBody) = length pre + 2"
    unfolding post by simp
  then have lt: "(0::nat) < 1 \<and> 1 < length (written None (POST unreachableEnv sampleBody))"
    by (simp add: written_def)
  from t have "\<forall>i j. i < j \<and> j < length (written None (POST unreachableEnv sampleBody)) \<longrightarrow>
      \<not> terminal (written None (POST unreachableEnv sampleBody) ! i)"
    by (rule conjunct2)
  then have "(0::nat) < 1 \<and> 1 < length (written None (POST unreachableEnv sampleBody)) \<longrightarrow>
      \<not> terminal (written None (POST unreachableEnv sampleBody) ! 0)"
    by (elim allE)
  then have nt: "\<not> terminal (written None (POST unreachableEnv sampleBody) ! 0)"
    using lt by (rule mp)
  from ex have ex': "\<exists>pre. POST unreachableEnv sampleBody = pre @
      [EvPhase error ''Scraping finished, but no source returned usable content.'',
       EvError ''Scraping finished, but no source returned usable content.'']"
    by (simp only: message_of.simps)
  from unreachable_run_fatal ex' nt show ?thesis by (intro conjI)
qed

section \<open>The number of discovered sources\<close>






end
